theory Spec2Isabelle
  imports Main "HOL-Library.Char_ord" "HOL-Library.List_Lexorder"
begin

section \<open>Data model of the scoreboard engine\<close>

text \<open>
  The structs of \<^verbatim>\<open>main.cpp\<close> become records. The C++ \<^verbatim>\<open>int\<close> fields are
  mathematical integers here: contest times, attempt counts and penalties stay far
  below the 32-bit range, and no property below depends on wrap-around.
  A \<^verbatim>\<open>std::string\<close> is a \<^typ>\<open>string\<close>; its comparison \<^verbatim>\<open>operator<\<close> is the
  lexicographic order on byte values, which is the order of \<open>List_Lexorder\<close> over
  \<open>Char_ord\<close>.
\<close>

record Submission =
  problem :: string
  status :: string
  time :: int

record ProblemStatus =
  solved :: bool
  solveTime :: int
  wrongAttempts :: int
  frozenSubmissions :: int
  submissions :: "Submission list"
  frozenSubs :: "Submission list"

text \<open>The default member initialisers of \<^verbatim>\<open>struct ProblemStatus\<close>.\<close>

definition newProblemStatus :: ProblemStatus where
  "newProblemStatus =
     \<lparr>solved = False, solveTime = 0, wrongAttempts = 0, frozenSubmissions = 0,
      submissions = [], frozenSubs = []\<rparr>"

text \<open>
  \<^verbatim>\<open>map<char, ProblemStatus> problems\<close> is only ever accessed through
  \<^verbatim>\<open>operator[]\<close>, which creates a default entry for a missing key, and through two
  iterations (\<^verbatim>\<open>updateCache\<close>, \<^verbatim>\<open>querySubmission\<close>) on which a default entry has no
  effect. It is therefore a total function from keys to statuses whose value at a
  key never touched is \<^const>\<open>newProblemStatus\<close>. Iteration visits the keys in the
  order of \<^verbatim>\<open>char\<close>; \<open>problemKeys\<close> lists all of them by character code. Where
  \<^verbatim>\<open>char\<close> is signed the codes from 0x80 on are negative and come first
  (\<open>signedKeys\<close> below); the two orders agree on the codes below 0x80, among them the
  letters a contest uses. \<^verbatim>\<open>updateCache\<close> only counts, adds and sorts what it collects;
  \<^verbatim>\<open>querySubmission\<close> depends on the order, and what is proved of the order of its
  scan is proved for submissions under keys below 0x80, where the result is the same
  for both.
\<close>

record Team =
  name :: string
  problems :: "char \<Rightarrow> ProblemStatus"
  cachedSolved :: int
  cachedPenalty :: int
  cachedTimes :: "int list"
  cacheValid :: bool

definition newTeam :: "string \<Rightarrow> Team" where
  "newTeam n =
     \<lparr>name = n, problems = (\<lambda>c. newProblemStatus), cachedSolved = - 1,
      cachedPenalty = - 1, cachedTimes = [], cacheValid = False\<rparr>"

definition problemKeys :: "char list" where
  "problemKeys = Enum.enum"

text \<open>
  \<^verbatim>\<open>map<string, Team*> teams\<close> is an association list kept in key order. Every
  stored pointer comes from \<^verbatim>\<open>new Team(name)\<close>, so the pointers are distinct and a
  write through one of them is an update of that entry. \<^verbatim>\<open>teams[name]\<close> on a missing
  key inserts a null pointer, and the dereference that follows in every caller is the
  error \<open>NullDereference\<close>.
\<close>

record ICPCSystem =
  teams :: "(string \<times> Team) list"
  started :: bool
  frozen :: bool
  freezeTime :: int
  durationTime :: int
  problemCount :: int
  ranking :: "string list"

definition initialSystem :: ICPCSystem where
  "initialSystem =
     \<lparr>teams = [], started = False, frozen = False, freezeTime = - 1,
      durationTime = 0, problemCount = 0, ranking = []\<rparr>"

datatype error = NullDereference

text \<open>What the program prints, one value per printed line.\<close>

datatype cell =
  FrozenClean int | FrozenWrong int int | SolvedClean | SolvedWrong int
  | Untouched | Failed int

datatype outLine =
  Info string
  | Error string
  | Warning string
  | ScoreRow string nat int int "cell list"
  | RankChange string string int int
  | RankingLine string nat
  | SubmissionLine string string string int
  | NoSubmission

section \<open>Team: the memoised ranking metrics\<close>

definition invalidateCache :: "Team \<Rightarrow> Team" where
  "invalidateCache t = t\<lparr>cacheValid := False\<rparr>"

definition solvedKeys :: "Team \<Rightarrow> char list" where
  "solvedKeys t = filter (\<lambda>c. solved (problems t c)) problemKeys"

definition updateCache :: "Team \<Rightarrow> Team" where
  "updateCache t =
     (if cacheValid t then t
      else t\<lparr>cachedSolved := int (length (solvedKeys t)),
             cachedPenalty :=
               sum_list (map (\<lambda>c. solveTime (problems t c) + 20 * wrongAttempts (problems t c))
                             (solvedKeys t)),
             cachedTimes := rev (sort (map (\<lambda>c. solveTime (problems t c)) (solvedKeys t))),
             cacheValid := True\<rparr>)"

definition getSolvedCount :: "Team \<Rightarrow> int" where
  "getSolvedCount t = cachedSolved (updateCache t)"

definition getPenaltyTime :: "Team \<Rightarrow> int" where
  "getPenaltyTime t = cachedPenalty (updateCache t)"

definition getSolveTimes :: "Team \<Rightarrow> int list" where
  "getSolveTimes t = cachedTimes (updateCache t)"

section \<open>The ranking comparator\<close>

text \<open>
  The \<^verbatim>\<open>for\<close> loop of \<^verbatim>\<open>compareTeams\<close> over the first \<^verbatim>\<open>minSize\<close> positions: the
  verdict at the first position where the two lists differ, if there is one.
\<close>

fun firstDifference :: "int list \<Rightarrow> int list \<Rightarrow> bool option" where
  "firstDifference (x # xs) (y # ys) =
     (if x \<noteq> y then Some (x < y) else firstDifference xs ys)"
| "firstDifference _ _ = None"

text \<open>
  The verdict of \<^verbatim>\<open>compareTeams\<close> on two entries of the team table: the name
  under which each team is stored, and the team object found there.
\<close>

definition teamBefore :: "string \<times> Team \<Rightarrow> string \<times> Team \<Rightarrow> bool" where
  "teamBefore e1 e2 =
     (let solved1 = getSolvedCount (snd e1); solved2 = getSolvedCount (snd e2) in
      if solved1 \<noteq> solved2 then solved1 > solved2
      else let penalty1 = getPenaltyTime (snd e1); penalty2 = getPenaltyTime (snd e2) in
        if penalty1 \<noteq> penalty2 then penalty1 < penalty2
        else (case firstDifference (getSolveTimes (snd e1)) (getSolveTimes (snd e2)) of
                Some b \<Rightarrow> b
              | None \<Rightarrow> fst e1 < fst e2))"

text \<open>
  A write through the pointer stored under a key. The key stays where it is.
\<close>

definition updateTeam :: "string \<Rightarrow> Team \<Rightarrow> (string \<times> Team) list \<Rightarrow> (string \<times> Team) list" where
  "updateTeam n t ts = map (\<lambda>(k, v). if k = n then (k, t) else (k, v)) ts"

text \<open>
  \<^verbatim>\<open>compareTeams\<close> reads the metrics of both teams through the accessors, which
  refresh both caches before any comparison is made; the refreshed teams are part of
  the result.
\<close>

definition compareTeams ::
  "(string \<times> Team) list \<Rightarrow> string \<Rightarrow> string \<Rightarrow> error + bool \<times> (string \<times> Team) list" where
  "compareTeams ts t1Name t2Name =
     (case map_of ts t1Name of
        None \<Rightarrow> Inl NullDereference
      | Some team1 \<Rightarrow>
          (case map_of ts t2Name of
             None \<Rightarrow> Inl NullDereference
           | Some team2 \<Rightarrow>
               Inr (teamBefore (t1Name, team1) (t2Name, team2),
                    updateTeam t2Name (updateCache team2)
                      (updateTeam t1Name (updateCache team1) ts))))"

section \<open>Resolution of one frozen problem\<close>

text \<open>
  The replay loop of \<^verbatim>\<open>scroll\<close> over \<^verbatim>\<open>ps.frozenSubs\<close>, with the flag \<^verbatim>\<open>changed\<close>.
\<close>

fun replay :: "Submission list \<Rightarrow> ProblemStatus \<times> bool \<Rightarrow> ProblemStatus \<times> bool" where
  "replay [] (ps, changed) = (ps, changed)"
| "replay (sub # subs) (ps, changed) =
     (if \<not> solved ps then
        (if status sub = ''Accepted''
         then replay subs (ps\<lparr>solved := True, solveTime := time sub\<rparr>, True)
         else replay subs (ps\<lparr>wrongAttempts := wrongAttempts ps + 1\<rparr>, changed))
      else replay subs (ps, changed))"

definition resolveFrozen :: "ProblemStatus \<Rightarrow> ProblemStatus \<times> bool" where
  "resolveFrozen ps =
     (let (ps', changed) = replay (frozenSubs ps) (ps, False)
      in (ps'\<lparr>frozenSubmissions := 0, frozenSubs := []\<rparr>, changed))"

section \<open>Registration, start and submission recording\<close>

definition addTeam :: "string \<Rightarrow> ICPCSystem \<Rightarrow> ICPCSystem \<times> outLine list" where
  "addTeam n st =
     (if started st then (st, [Error ''Add failed: competition has started.''])
      else if map_of (teams st) n \<noteq> None then (st, [Error ''Add failed: duplicated team name.''])
      else (st\<lparr>teams := insort_key fst (n, newTeam n) (teams st),
               ranking := sort (ranking st @ [n])\<rparr>,
            [Info ''Add successfully.'']))"

text \<open>\<^verbatim>\<open>char prob = 'A' + i\<close>: the conversion to \<^verbatim>\<open>char\<close> keeps the low eight bits.\<close>

definition problemLetter :: "nat \<Rightarrow> char" where
  "problemLetter i = char_of (of_char CHR ''A'' + i)"

definition contestProblems :: "int \<Rightarrow> char list" where
  "contestProblems pc = map problemLetter [0..<nat pc]"

definition startCompetition :: "int \<Rightarrow> int \<Rightarrow> ICPCSystem \<Rightarrow> ICPCSystem \<times> outLine list" where
  "startCompetition duration pc st =
     (if started st then (st, [Error ''Start failed: competition has started.''])
      else (st\<lparr>started := True, durationTime := duration, problemCount := pc,
               teams := map (\<lambda>(k, t). (k, t\<lparr>problems :=
                          foldl (\<lambda>f prob. f(prob := newProblemStatus)) (problems t)
                                (contestProblems pc)\<rparr>)) (teams st)\<rparr>,
            [Info ''Competition starts.'']))"

text \<open>\<^verbatim>\<open>problem[0]\<close>; on the empty string it is the terminating zero byte.\<close>

definition firstChar :: "string \<Rightarrow> char" where
  "firstChar s = (case s of [] \<Rightarrow> CHR 0x00 | c # _ \<Rightarrow> c)"

definition submit :: "string \<Rightarrow> string \<Rightarrow> string \<Rightarrow> int \<Rightarrow> ICPCSystem \<Rightarrow> error + ICPCSystem" where
  "submit prob_name teamName stat tm st =
     (case map_of (teams st) teamName of
        None \<Rightarrow> Inl NullDereference
      | Some team \<Rightarrow>
          (let prob = firstChar prob_name;
               ps = problems team prob;
               sub = \<lparr>problem = prob_name, status = stat, time = tm\<rparr>;
               ps1 = ps\<lparr>submissions := submissions ps @ [sub]\<rparr>;
               team' =
                 (if frozen st \<and> \<not> solved ps1 then
                    team\<lparr>problems := (problems team)(prob :=
                           ps1\<lparr>frozenSubmissions := frozenSubmissions ps1 + 1,
                               frozenSubs := frozenSubs ps1 @ [sub]\<rparr>)\<rparr>
                  else if \<not> solved ps1 then
                    (if stat = ''Accepted'' then
                       invalidateCache (team\<lparr>problems := (problems team)(prob :=
                           ps1\<lparr>solved := True, solveTime := tm\<rparr>)\<rparr>)
                     else
                       invalidateCache (team\<lparr>problems := (problems team)(prob :=
                           ps1\<lparr>wrongAttempts := wrongAttempts ps1 + 1\<rparr>)\<rparr>))
                  else team\<lparr>problems := (problems team)(prob := ps1)\<rparr>)
           in Inr (st\<lparr>teams := updateTeam teamName team' (teams st)\<rparr>)))"

section \<open>Scoreboard: flush and print\<close>

fun insertBy :: "('a \<Rightarrow> 'a \<Rightarrow> bool) \<Rightarrow> 'a \<Rightarrow> 'a list \<Rightarrow> 'a list" where
  "insertBy lt x [] = [x]"
| "insertBy lt x (y # ys) = (if lt x y then x # y # ys else y # insertBy lt x ys)"

definition sortBy :: "('a \<Rightarrow> 'a \<Rightarrow> bool) \<Rightarrow> 'a list \<Rightarrow> 'a list" where
  "sortBy lt xs = foldr (insertBy lt) xs []"

text \<open>
  \<^verbatim>\<open>flushScoreboard\<close> sorts the keys of the team table with \<^verbatim>\<open>compareTeams\<close>. The
  algorithm of \<^verbatim>\<open>std::sort\<close> is not fixed, but two things about it are: on fewer than
  two elements it makes no comparison, and on two or more every element takes part in
  at least one. The only effect of a comparison is to refresh the caches of its two
  operands, which changes neither their metrics as read nor a cache already valid. So
  the sort leaves every cache refreshed when there are at least two teams, leaves the
  table alone otherwise, and orders the names by \<^const>\<open>teamBefore\<close>; insertion sort
  stands for the library routine.
\<close>

definition flushScoreboard :: "ICPCSystem \<Rightarrow> ICPCSystem" where
  "flushScoreboard st =
     st\<lparr>teams := (if length (teams st) < 2 then teams st
                  else map (\<lambda>(k, t). (k, updateCache t)) (teams st)),
        ranking := map fst (sortBy teamBefore (teams st))\<rparr>"

definition getProblemDisplay :: "ProblemStatus \<Rightarrow> bool \<Rightarrow> cell" where
  "getProblemDisplay ps isFrozen =
     (if isFrozen then
        (if wrongAttempts ps = 0 then FrozenClean (frozenSubmissions ps)
         else FrozenWrong (wrongAttempts ps) (frozenSubmissions ps))
      else if solved ps then
        (if wrongAttempts ps = 0 then SolvedClean else SolvedWrong (wrongAttempts ps))
      else
        (if wrongAttempts ps = 0 then Untouched else Failed (wrongAttempts ps)))"

fun indexOf :: "'a list \<Rightarrow> 'a \<Rightarrow> nat option" where
  "indexOf [] x = None"
| "indexOf (y # ys) x = (if y = x then Some 0 else map_option Suc (indexOf ys x))"

text \<open>The linear searches for a name in \<^verbatim>\<open>ranking\<close>: 1-based rank, 0 when absent.\<close>

definition rankOf :: "string list \<Rightarrow> string \<Rightarrow> nat" where
  "rankOf rk n = (case indexOf rk n of None \<Rightarrow> 0 | Some i \<Rightarrow> i + 1)"

fun printTeams :: "string list \<Rightarrow> ICPCSystem \<Rightarrow> error + outLine list \<times> ICPCSystem" where
  "printTeams [] st = Inr ([], st)"
| "printTeams (teamName # rest) st =
     (case map_of (teams st) teamName of
        None \<Rightarrow> Inl NullDereference
      | Some team \<Rightarrow>
          (let team' = updateCache team;
               row = ScoreRow teamName (rankOf (ranking st) teamName)
                       (cachedSolved team') (cachedPenalty team')
                       (map (\<lambda>prob. let ps = problems team prob in
                               getProblemDisplay ps
                                 (frozen st \<and> \<not> solved ps \<and> frozenSubmissions ps > 0))
                            (contestProblems (problemCount st)))
           in case printTeams rest (st\<lparr>teams := updateTeam teamName team' (teams st)\<rparr>) of
                Inl e \<Rightarrow> Inl e
              | Inr (rows, st') \<Rightarrow> Inr (row # rows, st')))"

definition printScoreboard :: "ICPCSystem \<Rightarrow> error + outLine list \<times> ICPCSystem" where
  "printScoreboard st = printTeams (ranking st) st"

definition flush :: "ICPCSystem \<Rightarrow> ICPCSystem \<times> outLine list" where
  "flush st = (flushScoreboard st, [Info ''Flush scoreboard.''])"

section \<open>Freeze and scroll\<close>

definition freeze :: "ICPCSystem \<Rightarrow> ICPCSystem \<times> outLine list" where
  "freeze st =
     (if frozen st then (st, [Error ''Freeze failed: scoreboard has been frozen.''])
      else (st\<lparr>frozen := True\<rparr>, [Info ''Freeze scoreboard.'']))"

text \<open>
  The inner \<^verbatim>\<open>for\<close> loop of the search: \<^verbatim>\<open>smallestFrozen\<close> starts at \<^verbatim>\<open>'Z' + 1\<close> and
  is lowered to every scanned letter that has frozen submissions. Characters are
  compared by code; a signed \<^verbatim>\<open>char\<close> compares in the same way on the codes below 0x80,
  which are the letters of a contest of at most 63 problems.
\<close>

definition smallestFrozen :: "int \<Rightarrow> Team \<Rightarrow> char" where
  "smallestFrozen pc team =
     foldl (\<lambda>sm prob. if frozenSubmissions (problems team prob) > 0 then min sm prob else sm)
           (char_of (of_char CHR ''Z'' + (1::nat))) (contestProblems pc)"

text \<open>
  The outer loop, over the names of \<^verbatim>\<open>ranking\<close> from the last to the first; the list
  argument is the part of the scoreboard not scanned yet, last position first.
\<close>

fun findFrozen :: "(string \<times> Team) list \<Rightarrow> int \<Rightarrow> string list \<Rightarrow> error + (string \<times> char) option" where
  "findFrozen ts pc [] = Inr None"
| "findFrozen ts pc (n # ns) =
     (case map_of ts n of
        None \<Rightarrow> Inl NullDereference
      | Some team \<Rightarrow>
          (if smallestFrozen pc team \<le> CHR ''Z'' then Inr (Some (n, smallestFrozen pc team))
           else findFrozen ts pc ns))"

definition findTarget :: "ICPCSystem \<Rightarrow> error + (string \<times> char) option" where
  "findTarget st = findFrozen (teams st) (problemCount st) (rev (ranking st))"

text \<open>
  The \<^verbatim>\<open>while (newRank > 0 && compareTeams(targetTeam, ranking[newRank - 1]))\<close> loop.
  The index read is below \<^verbatim>\<open>oldRank\<close>, a position of the scoreboard.
\<close>

fun bubble :: "(string \<times> Team) list \<Rightarrow> string \<Rightarrow> string list \<Rightarrow> nat \<Rightarrow> error + nat \<times> (string \<times> Team) list" where
  "bubble ts targetTeam rk 0 = Inr (0, ts)"
| "bubble ts targetTeam rk (Suc k) =
     (case compareTeams ts targetTeam (rk ! k) of
        Inl e \<Rightarrow> Inl e
      | Inr (better, ts') \<Rightarrow>
          (if better then bubble ts' targetTeam rk k else Inr (Suc k, ts')))"

text \<open>
  One iteration of the \<^verbatim>\<open>while (true)\<close> loop of \<^verbatim>\<open>scroll\<close> once the target is found:
  the body from \<^verbatim>\<open>// Unfreeze the problem\<close> to the end of the loop.
\<close>

definition scrollStep :: "ICPCSystem \<Rightarrow> string \<Rightarrow> char \<Rightarrow> error + ICPCSystem \<times> outLine list" where
  "scrollStep st targetTeam targetProblem =
     (case map_of (teams st) targetTeam of
        None \<Rightarrow> Inl NullDereference
      | Some team \<Rightarrow>
          (let oldRank = (case indexOf (ranking st) targetTeam of None \<Rightarrow> 0 | Some i \<Rightarrow> i);
               (ps', changed) = resolveFrozen (problems team targetProblem);
               team1 = team\<lparr>problems := (problems team)(targetProblem := ps')\<rparr>
           in if \<not> changed then Inr (st\<lparr>teams := updateTeam targetTeam team1 (teams st)\<rparr>, [])
              else
                (case bubble (updateTeam targetTeam (invalidateCache team1) (teams st))
                        targetTeam (ranking st) oldRank of
                   Inl e \<Rightarrow> Inl e
                 | Inr (newRank, ts2) \<Rightarrow>
                     (if newRank < oldRank then
                        (let erased = take oldRank (ranking st) @ drop (Suc oldRank) (ranking st);
                             inserted = take newRank erased @ targetTeam # drop newRank erased;
                             team2 = updateCache (invalidateCache team1)
                         in Inr (st\<lparr>teams := updateTeam targetTeam team2 ts2,
                                    ranking := inserted\<rparr>,
                                 [RankChange targetTeam (inserted ! (newRank + 1))
                                    (cachedSolved team2) (cachedPenalty team2)]))
                      else Inr (st\<lparr>teams := ts2\<rparr>, [])))))"

text \<open>
  The \<^verbatim>\<open>while (true)\<close> loop itself. Nothing in its text bounds the number of
  iterations, so it is a partial function: \<open>None\<close> is the loop that never ends.
\<close>

partial_function (option) scrollLoop ::
  "ICPCSystem \<Rightarrow> outLine list \<Rightarrow> (error + ICPCSystem \<times> outLine list) option" where
  "scrollLoop st out =
     (case findTarget st of
        Inl e \<Rightarrow> Some (Inl e)
      | Inr None \<Rightarrow> Some (Inr (st, out))
      | Inr (Some (targetTeam, targetProblem)) \<Rightarrow>
          (case scrollStep st targetTeam targetProblem of
             Inl e \<Rightarrow> Some (Inl e)
           | Inr (st', out') \<Rightarrow> scrollLoop st' (out @ out')))"

declare scrollLoop.simps [code]

text \<open>The same loop cut off after \<open>n\<close> resolutions.\<close>

fun scrollLoopWithin ::
  "nat \<Rightarrow> ICPCSystem \<Rightarrow> outLine list \<Rightarrow> (error + ICPCSystem \<times> outLine list) option" where
  "scrollLoopWithin n st out =
     (case findTarget st of
        Inl e \<Rightarrow> Some (Inl e)
      | Inr None \<Rightarrow> Some (Inr (st, out))
      | Inr (Some (targetTeam, targetProblem)) \<Rightarrow>
          (case n of
             0 \<Rightarrow> None
           | Suc m \<Rightarrow>
               (case scrollStep st targetTeam targetProblem of
                  Inl e \<Rightarrow> Some (Inl e)
                | Inr (st', out') \<Rightarrow> scrollLoopWithin m st' (out @ out'))))"

declare scrollLoopWithin.simps [simp del]

definition scroll :: "ICPCSystem \<Rightarrow> (error + ICPCSystem \<times> outLine list) option" where
  "scroll st =
     (if \<not> frozen st then
        Some (Inr (st, [Error ''Scroll failed: scoreboard has not been frozen.'']))
      else
        (case printScoreboard (flushScoreboard st) of
           Inl e \<Rightarrow> Some (Inl e)
         | Inr (rows1, st1) \<Rightarrow>
             (case scrollLoop st1 (Info ''Scroll scoreboard.'' # rows1) of
                None \<Rightarrow> None
              | Some (Inl e) \<Rightarrow> Some (Inl e)
              | Some (Inr (st2, out)) \<Rightarrow>
                  (case printScoreboard (st2\<lparr>frozen := False\<rparr>) of
                     Inl e \<Rightarrow> Some (Inl e)
                   | Inr (rows2, st3) \<Rightarrow> Some (Inr (st3, out @ rows2))))))"

section \<open>Queries\<close>

definition queryRanking :: "string \<Rightarrow> ICPCSystem \<Rightarrow> outLine list" where
  "queryRanking teamName st =
     (if map_of (teams st) teamName = None then
        [Error ''Query ranking failed: cannot find the team.'']
      else
        Info ''Complete query ranking.''
        # (if frozen st then
             [Warning ''Scoreboard is frozen. The ranking may be inaccurate until it were scrolled.'']
           else [])
        @ [RankingLine teamName (rankOf (ranking st) teamName)])"

definition matchesFilters :: "string \<Rightarrow> string \<Rightarrow> Submission \<Rightarrow> bool" where
  "matchesFilters prob_name stat sub =
     ((prob_name = ''ALL'' \<or> problem sub = prob_name) \<and> (stat = ''ALL'' \<or> status sub = stat))"

text \<open>
  The inner loop of \<^verbatim>\<open>querySubmission\<close> over one problem's \<^verbatim>\<open>submissions\<close>; the last
  argument is \<^verbatim>\<open>lastMatch\<close>, \<open>None\<close> for the null pointer.
\<close>

fun scanSubmissions :: "string \<Rightarrow> string \<Rightarrow> Submission list \<Rightarrow> Submission option \<Rightarrow> Submission option" where
  "scanSubmissions prob_name stat [] lastMatch = lastMatch"
| "scanSubmissions prob_name stat (sub # subs) lastMatch =
     scanSubmissions prob_name stat subs
       (if matchesFilters prob_name stat sub then
          (case lastMatch of
             None \<Rightarrow> Some sub
           | Some l \<Rightarrow> if time sub > time l then Some sub else lastMatch)
        else lastMatch)"

definition findLastMatch :: "Team \<Rightarrow> string \<Rightarrow> string \<Rightarrow> Submission option" where
  "findLastMatch team prob_name stat =
     foldl (\<lambda>lastMatch c. scanSubmissions prob_name stat (submissions (problems team c)) lastMatch)
           None problemKeys"

definition querySubmission :: "string \<Rightarrow> string \<Rightarrow> string \<Rightarrow> ICPCSystem \<Rightarrow> outLine list" where
  "querySubmission teamName prob_name stat st =
     (case map_of (teams st) teamName of
        None \<Rightarrow> [Error ''Query submission failed: cannot find the team.'']
      | Some team \<Rightarrow>
          Info ''Complete query submission.''
          # (case findLastMatch team prob_name stat of
               None \<Rightarrow> [NoSubmission]
             | Some l \<Rightarrow> [SubmissionLine teamName (problem l) (status l) (time l)]))"

section \<open>The command loop\<close>

datatype command =
  ADDTEAM string
  | START int int
  | SUBMIT string string string int
  | FLUSH
  | FREEZE
  | SCROLL
  | QUERY_RANKING string
  | QUERY_SUBMISSION string string string
  | END

text \<open>
  One command of \<^verbatim>\<open>main\<close>, already split into its fields. The result is \<open>None\<close> when
  the command does not return, \<open>Inl\<close> when the process dies, and otherwise the state
  and the lines printed.
\<close>

fun exec :: "command \<Rightarrow> ICPCSystem \<Rightarrow> (error + ICPCSystem \<times> outLine list) option" where
  "exec (ADDTEAM n) st = Some (Inr (addTeam n st))"
| "exec (START duration pc) st = Some (Inr (startCompetition duration pc st))"
| "exec (SUBMIT prob_name teamName stat tm) st =
     (case submit prob_name teamName stat tm st of
        Inl e \<Rightarrow> Some (Inl e)
      | Inr st' \<Rightarrow> Some (Inr (st', [])))"
| "exec FLUSH st = Some (Inr (flush st))"
| "exec FREEZE st = Some (Inr (freeze st))"
| "exec SCROLL st = scroll st"
| "exec (QUERY_RANKING teamName) st = Some (Inr (st, queryRanking teamName st))"
| "exec (QUERY_SUBMISSION teamName prob_name stat) st =
     Some (Inr (st, querySubmission teamName prob_name stat st))"
| "exec END st = Some (Inr (st, [Info ''Competition ends.'']))"

text \<open>The \<^verbatim>\<open>while (getline(cin, line))\<close> loop: \<^verbatim>\<open>END\<close> leaves it.\<close>

fun run :: "command list \<Rightarrow> ICPCSystem \<Rightarrow> (error + ICPCSystem \<times> outLine list) option" where
  "run [] st = Some (Inr (st, []))"
| "run (c # cs) st =
     (case exec c st of
        None \<Rightarrow> None
      | Some (Inl e) \<Rightarrow> Some (Inl e)
      | Some (Inr (st', out)) \<Rightarrow>
          (if c = END then Some (Inr (st', out))
           else (case run cs st' of
                   None \<Rightarrow> None
                 | Some (Inl e) \<Rightarrow> Some (Inl e)
                 | Some (Inr (st'', out')) \<Rightarrow> Some (Inr (st'', out @ out')))))"

section \<open>Vocabulary of the properties\<close>

text \<open>
  The three cache fields of a team are written together, by \<^const>\<open>updateCache\<close> and
  by nothing else, so in a valid cache the list of solve times has as many entries as
  the cached count of solved problems.
\<close>

definition coherent :: "Team \<Rightarrow> bool" where
  "coherent t = (cacheValid t \<longrightarrow> int (length (cachedTimes t)) = cachedSolved t)"

text \<open>Example values.\<close>

definition wrongThenAccepted :: ProblemStatus where
  "wrongThenAccepted = newProblemStatus\<lparr>frozenSubmissions := 2,
     frozenSubs := [\<lparr>problem = ''B'', status = ''Wrong_Answer'', time = 3\<rparr>,
                    \<lparr>problem = ''B'', status = ''Accepted'', time = 7\<rparr>]\<rparr>"

definition teamX :: "string \<times> Team" where
  "teamX = (''X'', (newTeam ''X'')\<lparr>problems := (\<lambda>c. newProblemStatus)
      (CHR ''A'' := newProblemStatus\<lparr>solved := True, solveTime := 10, wrongAttempts := 1\<rparr>)\<rparr>)"

definition teamY :: "string \<times> Team" where
  "teamY = (''Y'', (newTeam ''Y'')\<lparr>problems := (\<lambda>c. newProblemStatus)
      (CHR ''A'' := newProblemStatus\<lparr>solved := True, solveTime := 5\<rparr>)\<rparr>)"

definition teamZ :: "string \<times> Team" where
  "teamZ = (''Z'', newTeam ''Z'')"

text \<open>
  The submissions of a team in the order in which \<^verbatim>\<open>querySubmission\<close> visits them:
  problem by problem in key order, and within a problem in the order of recording.
\<close>

definition recordedSubmissions :: "Team \<Rightarrow> Submission list" where
  "recordedSubmissions team = concat (map (\<lambda>c. submissions (problems team c)) problemKeys)"

text \<open>
  The keys in the order of a \<^verbatim>\<open>map<char, ProblemStatus>\<close> whose \<^verbatim>\<open>char\<close> is signed: the
  codes 0x80 to 0xFF are the negative characters and come first.
\<close>

definition signedKeys :: "char list" where
  "signedKeys = map char_of [128..<256::nat] @ map char_of [0..<128::nat]"

text \<open>The two nested loops of \<^verbatim>\<open>querySubmission\<close>, the keys visited in a given order.\<close>

definition lastMatchIn :: "char list \<Rightarrow> Team \<Rightarrow> string \<Rightarrow> string \<Rightarrow> Submission option" where
  "lastMatchIn keys team prob_name stat =
     foldl (\<lambda>lastMatch c. scanSubmissions prob_name stat (submissions (problems team c)) lastMatch)
           None keys"

text \<open>
  Every submission of the team is filed under a key below 0x80: the first character of
  its problem name is a plain (7-bit) character, as every letter is.
\<close>

definition plainSubmissions :: "Team \<Rightarrow> bool" where
  "plainSubmissions team = (\<forall>c. (128::nat) \<le> of_char c \<longrightarrow> submissions (problems team c) = [])"

text \<open>A command that files nothing under a key from 0x80 on.\<close>

fun plainCommand :: "command \<Rightarrow> bool" where
  "plainCommand (SUBMIT pn n stat tm) = (of_char (firstChar pn) < (128::nat))"
| "plainCommand _ = True"

text \<open>Observations of the result of a run.\<close>

definition printed :: "(error + ICPCSystem \<times> outLine list) option \<Rightarrow> outLine list option" where
  "printed r = (case r of Some (Inr (st, out)) \<Rightarrow> Some out | _ \<Rightarrow> None)"

definition finalState :: "(error + ICPCSystem \<times> outLine list) option \<Rightarrow> ICPCSystem option" where
  "finalState r = (case r of Some (Inr (st, out)) \<Rightarrow> Some st | _ \<Rightarrow> None)"

definition problemAt :: "string \<Rightarrow> char \<Rightarrow> ICPCSystem \<Rightarrow> ProblemStatus option" where
  "problemAt n c st = map_option (\<lambda>t. problems t c) (map_of (teams st) n)"

text \<open>Example command sequences and values.\<close>

definition frozenQuery :: "command list" where
  "frozenQuery = [ADDTEAM ''a'', START 10 1, FREEZE, SUBMIT ''A'' ''a'' ''Accepted'' 5,
                  QUERY_SUBMISSION ''a'' ''ALL'' ''ALL'']"


definition tiedTeam :: Team where
  "tiedTeam = (newTeam ''a'')\<lparr>problems := (\<lambda>c. newProblemStatus)
      (CHR ''A'' := newProblemStatus\<lparr>solved := True, solveTime := 5, wrongAttempts := 1,
         submissions := [\<lparr>problem = ''A'', status = ''Wrong_Answer'', time = 5\<rparr>,
                         \<lparr>problem = ''A'', status = ''Accepted'', time = 5\<rparr>,
                         \<lparr>problem = ''A'', status = ''Accepted'', time = 3\<rparr>]\<rparr>)\<rparr>"

text \<open>A team with a submission under the key 0x80, tied with one under the key A.\<close>

definition highKeyTeam :: Team where
  "highKeyTeam = (newTeam ''a'')\<lparr>problems := (\<lambda>c. newProblemStatus)
      (CHR ''A'' := newProblemStatus\<lparr>wrongAttempts := 1,
         submissions := [\<lparr>problem = ''A'', status = ''Wrong_Answer'', time = 5\<rparr>]\<rparr>,
       CHR 0x80 := newProblemStatus\<lparr>wrongAttempts := 1,
         submissions := [\<lparr>problem = [CHR 0x80], status = ''Wrong_Answer'', time = 5\<rparr>]\<rparr>)\<rparr>"

definition frozenSystem :: ICPCSystem where
  "frozenSystem = initialSystem\<lparr>teams := [(''a'', newTeam ''a'')], started := True,
     frozen := True, problemCount := 1, ranking := [''a'']\<rparr>"

definition unknownTeamSubmit :: "command list" where
  "unknownTeamSubmit = [ADDTEAM ''a'', START 10 1, SUBMIT ''A'' ''ghost'' ''Accepted'' 1,
                        QUERY_RANKING ''a'']"

text \<open>
  Two team tables with the same keys in which every team of the second is the team of
  the first, possibly with its cache refreshed.
\<close>

definition refreshedFrom :: "(string \<times> Team) list \<Rightarrow> (string \<times> Team) list \<Rightarrow> bool" where
  "refreshedFrom ts ts' =
     (map fst ts' = map fst ts \<and>
      (\<forall>m. map_of ts' m = map_of ts m \<or> map_of ts' m = map_option updateCache (map_of ts m)))"

text \<open>The verdict of \<^verbatim>\<open>compareTeams\<close> on two names of a team table.\<close>

definition better :: "(string \<times> Team) list \<Rightarrow> string \<Rightarrow> string \<Rightarrow> bool" where
  "better ts a b =
     (case map_of ts a of
        None \<Rightarrow> False
      | Some ta \<Rightarrow> (case map_of ts b of None \<Rightarrow> False | Some tb \<Rightarrow> teamBefore (a, ta) (b, tb)))"

text \<open>
  A contest problem (one of the letters the scroll scans) on which the team has frozen
  submissions.
\<close>

definition hasFrozen :: "int \<Rightarrow> Team \<Rightarrow> char \<Rightarrow> bool" where
  "hasFrozen pc team c = (c \<in> set (contestProblems pc) \<and> frozenSubmissions (problems team c) > 0)"

definition teamHasFrozen :: "ICPCSystem \<Rightarrow> string \<Rightarrow> bool" where
  "teamHasFrozen st n =
     (case map_of (teams st) n of
        None \<Rightarrow> False
      | Some t \<Rightarrow> \<exists>c. hasFrozen (problemCount st) t c)"

text \<open>
  Names for the parts of \<^const>\<open>scrollStep\<close>: the position found by the search for
  \<^verbatim>\<open>oldRank\<close>, the \<^verbatim>\<open>erase\<close> followed by \<^verbatim>\<open>insert\<close>, the team after the replay, and
  the metrics that \<^const>\<open>updateCache\<close> computes from the problems.
\<close>

definition oldRankOf :: "string list \<Rightarrow> string \<Rightarrow> nat" where
  "oldRankOf rk n = (case indexOf rk n of None \<Rightarrow> 0 | Some i \<Rightarrow> i)"

definition moveTo :: "nat \<Rightarrow> nat \<Rightarrow> 'a \<Rightarrow> 'a list \<Rightarrow> 'a list" where
  "moveTo old new n rk =
     (let erased = take old rk @ drop (Suc old) rk in take new erased @ n # drop new erased)"

definition resolvedTeam :: "Team \<Rightarrow> char \<Rightarrow> Team" where
  "resolvedTeam team c = team\<lparr>problems := (problems team)(c := fst (resolveFrozen (problems team c)))\<rparr>"

definition solvedCountOf :: "Team \<Rightarrow> int" where
  "solvedCountOf t = int (length (solvedKeys t))"

definition penaltyOf :: "Team \<Rightarrow> int" where
  "penaltyOf t = sum_list (map (\<lambda>c. solveTime (problems t c) + 20 * wrongAttempts (problems t c)) (solvedKeys t))"

text \<open>
  The measure of the resolution loop: the number of pairs of a team on the scoreboard
  and a contest problem with \<^verbatim>\<open>frozenSubmissions > 0\<close>.
\<close>

definition frozenAt :: "ICPCSystem \<Rightarrow> string \<Rightarrow> char \<Rightarrow> bool" where
  "frozenAt st n c =
     (case map_of (teams st) n of
        None \<Rightarrow> False
      | Some t \<Rightarrow> frozenSubmissions (problems t c) > 0)"

definition frozenPairs :: "ICPCSystem \<Rightarrow> nat" where
  "frozenPairs st =
     card (Set.filter (\<lambda>(n, c). frozenAt st n c)
             (set (ranking st) \<times> set (contestProblems (problemCount st))))"

text \<open>What one iteration of the loop does to the state, for the team \<open>n\<close> and problem \<open>c\<close>.\<close>

definition problemsOf :: "(string \<times> Team) list \<Rightarrow> string \<Rightarrow> (char \<Rightarrow> ProblemStatus) option" where
  "problemsOf ts m = map_option problems (map_of ts m)"

definition stepEffect :: "ICPCSystem \<Rightarrow> string \<Rightarrow> char \<Rightarrow> Team \<Rightarrow> ICPCSystem \<Rightarrow> bool" where
  "stepEffect st n c team st' =
     (problemCount st' = problemCount st \<and> frozen st' = frozen st \<and> started st' = started st \<and>
      set (ranking st') = set (ranking st) \<and> map fst (teams st') = map fst (teams st) \<and>
      (\<forall>m. problemsOf (teams st') m =
            (if m = n then Some ((problems team)(c := fst (resolveFrozen (problems team c))))
             else problemsOf (teams st) m)))"

definition scrollExample :: ICPCSystem where
  "scrollExample =
     \<lparr>teams =
        [(''a'', (newTeam ''a'')\<lparr>problems := (\<lambda>c. newProblemStatus)
            (CHR ''A'' := newProblemStatus\<lparr>wrongAttempts := 1, frozenSubmissions := 1,
               frozenSubs := [\<lparr>problem = ''A'', status = ''Accepted'', time = 5\<rparr>]\<rparr>)\<rparr>),
         (''b'', (newTeam ''b'')\<lparr>problems := (\<lambda>c. newProblemStatus)
            (CHR ''B'' := newProblemStatus\<lparr>frozenSubmissions := 1,
               frozenSubs := [\<lparr>problem = ''B'', status = ''Accepted'', time = 5\<rparr>]\<rparr>)\<rparr>)],
      started = True, frozen = True, freezeTime = - 1, durationTime = 10, problemCount = 2,
      ranking = [''a'', ''b'']\<rparr>"

definition teamB :: Team where
  "teamB = (newTeam ''b'')\<lparr>problems := (\<lambda>c. newProblemStatus)
            (CHR ''B'' := newProblemStatus\<lparr>frozenSubmissions := 1,
               frozenSubs := [\<lparr>problem = ''B'', status = ''Accepted'', time = 5\<rparr>]\<rparr>)\<rparr>"

text \<open>
  Every problem that is solved in the first state is solved in the second, with the
  same solve time and the same number of wrong attempts.
\<close>

definition rankingFieldsKept :: "ICPCSystem \<Rightarrow> ICPCSystem \<Rightarrow> bool" where
  "rankingFieldsKept st st' =
     (\<forall>m c ps. problemAt m c st = Some ps \<and> solved ps \<longrightarrow>
        (\<exists>ps'. problemAt m c st' = Some ps' \<and> solved ps' \<and> solveTime ps' = solveTime ps \<and>
               wrongAttempts ps' = wrongAttempts ps))"

text \<open>Kinds of commands.\<close>

fun isStart :: "command \<Rightarrow> bool" where
  "isStart (START d pc) = True"
| "isStart _ = False"

definition solvedSystem :: ICPCSystem where
  "solvedSystem =
     \<lparr>teams =
        [(''a'', (newTeam ''a'')\<lparr>problems := (\<lambda>c. newProblemStatus)
            (CHR ''A'' := newProblemStatus\<lparr>solved := True, solveTime := 5, wrongAttempts := 1,
               submissions := [\<lparr>problem = ''A'', status = ''Wrong_Answer'', time = 3\<rparr>,
                               \<lparr>problem = ''A'', status = ''Accepted'', time = 5\<rparr>]\<rparr>)\<rparr>)],
      started = True, frozen = False, freezeTime = - 1, durationTime = 10, problemCount = 1,
      ranking = [''a'']\<rparr>"

definition laterSubmissions :: "command list" where
  "laterSubmissions = [SUBMIT ''A'' ''a'' ''Wrong_Answer'' 7, FREEZE,
                       SUBMIT ''A'' ''a'' ''Accepted'' 9, SCROLL]"

text \<open>
  A cache that is not stale: if it is valid, it holds what \<^const>\<open>updateCache\<close> would
  compute from the problems now.
\<close>

definition fresh :: "Team \<Rightarrow> bool" where
  "fresh t =
     (cacheValid t \<longrightarrow>
        cachedSolved t = solvedCountOf t \<and> cachedPenalty t = penaltyOf t \<and>
        cachedTimes t = rev (sort (map (\<lambda>c. solveTime (problems t c)) (solvedKeys t))))"

definition allTeams :: "(Team \<Rightarrow> bool) \<Rightarrow> ICPCSystem \<Rightarrow> bool" where
  "allTeams P st = (\<forall>n t. map_of (teams st) n = Some t \<longrightarrow> P t)"

text \<open>
  Two problem tables that agree on what the ranking reads: which problems are solved,
  and for the solved ones the solve time and the wrong attempts.
\<close>

definition sameRanking :: "(char \<Rightarrow> ProblemStatus) \<Rightarrow> (char \<Rightarrow> ProblemStatus) \<Rightarrow> bool" where
  "sameRanking f g =
     (\<forall>c. solved (g c) = solved (f c) \<and>
          (solved (f c) \<longrightarrow> solveTime (g c) = solveTime (f c) \<and>
             wrongAttempts (g c) = wrongAttempts (f c)))"

text \<open>
  The scoreboard lists every registered team once, and the team table has no
  duplicate key (it is a \<^verbatim>\<open>std::map\<close>).
\<close>

definition boardConsistent :: "ICPCSystem \<Rightarrow> bool" where
  "boardConsistent st =
     (distinct (map fst (teams st)) \<and> distinct (ranking st) \<and>
      set (ranking st) = set (map fst (teams st)))"

text \<open>
  A property of teams kept by the three things the engine does to a team between
  two reads: a refresh, an invalidation, and a change of problems that the ranking
  does not see.
\<close>

definition cacheInvariant :: "(Team \<Rightarrow> bool) \<Rightarrow> bool" where
  "cacheInvariant P =
     ((\<forall>t. P t \<longrightarrow> P (updateCache t)) \<and> (\<forall>t. P (invalidateCache t)) \<and>
      (\<forall>t g. P t \<and> sameRanking (problems t) g \<longrightarrow> P (t\<lparr>problems := g\<rparr>)) \<and>
      (\<forall>n. P (newTeam n)))"

definition wellFormed :: "ICPCSystem \<Rightarrow> bool" where
  "wellFormed st = (boardConsistent st \<and> allTeams coherent st)"

text \<open>No team has received a submission: every problem status is the default one.\<close>

definition pristine :: "ICPCSystem \<Rightarrow> bool" where
  "pristine st = (\<forall>n t. map_of (teams st) n = Some t \<longrightarrow> problems t = (\<lambda>c. newProblemStatus))"

text \<open>
  No \<^verbatim>\<open>SUBMIT\<close> before the contest has started; the flag says whether it has
  started already.
\<close>

fun submitsAfterStart :: "bool \<Rightarrow> command list \<Rightarrow> bool" where
  "submitsAfterStart s [] = True"
| "submitsAfterStart s (START d pc # cs) = submitsAfterStart True cs"
| "submitsAfterStart s (SUBMIT pn n stat tm # cs) = (s \<and> submitsAfterStart s cs)"
| "submitsAfterStart s (c # cs) = submitsAfterStart s cs"

definition teamAt :: "string \<Rightarrow> ICPCSystem \<Rightarrow> Team option" where
  "teamAt n st = map_of (teams st) n"

definition staleCacheRun :: "command list" where
  "staleCacheRun = [ADDTEAM ''a'', SUBMIT ''A'' ''a'' ''Accepted'' 5, FREEZE, SCROLL, START 10 1]"

fun isSubmit :: "command \<Rightarrow> bool" where
  "isSubmit (SUBMIT pn n stat tm) = True"
| "isSubmit _ = False"

text \<open>
  The states at the head of an iteration of the resolution loop entered in \<open>st\<close>:
  \<open>st\<close> itself, and whatever one more iteration makes of such a state.
\<close>

inductive visits :: "ICPCSystem \<Rightarrow> ICPCSystem \<Rightarrow> bool" where
  visits_first: "visits st st"
| visits_step: "visits st s \<Longrightarrow> findTarget s = Inr (Some (n, c)) \<Longrightarrow>
          scrollStep s n c = Inr (s', out) \<Longrightarrow> visits st s'"

text \<open>
  A scanned problem (a contest letter up to \<^verbatim>\<open>'Z'\<close>) with a positive frozen count is
  unsolved, and the scoreboard is frozen.
\<close>

definition frozenUnsolved :: "ICPCSystem \<Rightarrow> bool" where
  "frozenUnsolved st =
     (\<forall>n t c. map_of (teams st) n = Some t \<and> c \<in> set (contestProblems (problemCount st)) \<and>
        c \<le> CHR ''Z'' \<and> frozenSubmissions (problems t c) > 0 \<longrightarrow>
        \<not> solved (problems t c) \<and> frozen st)"

text \<open>What every command keeps: before \<^verbatim>\<open>START\<close> the problem count is still zero.\<close>

definition contestState :: "ICPCSystem \<Rightarrow> bool" where
  "contestState st =
     (wellFormed st \<and> frozenUnsolved st \<and> (\<not> started st \<longrightarrow> problemCount st = 0))"

text \<open>What \<^verbatim>\<open>submit\<close> does to the one \<^verbatim>\<open>ProblemStatus\<close> it touches.\<close>

definition recorded :: "bool \<Rightarrow> string \<Rightarrow> string \<Rightarrow> int \<Rightarrow> ProblemStatus \<Rightarrow> ProblemStatus" where
  "recorded fr pn stat tm ps =
     (let sub = \<lparr>problem = pn, status = stat, time = tm\<rparr>;
          ps1 = ps\<lparr>submissions := submissions ps @ [sub]\<rparr>
      in if fr \<and> \<not> solved ps then
           ps1\<lparr>frozenSubmissions := frozenSubmissions ps + 1, frozenSubs := frozenSubs ps @ [sub]\<rparr>
         else if \<not> solved ps then
           (if stat = ''Accepted'' then ps1\<lparr>solved := True, solveTime := tm\<rparr>
            else ps1\<lparr>wrongAttempts := wrongAttempts ps + 1\<rparr>)
         else ps1)"

text \<open>What the resolution loop entered from \<open>st\<close> keeps, iteration after iteration.\<close>

definition loopInvariant :: "ICPCSystem \<Rightarrow> ICPCSystem \<Rightarrow> bool" where
  "loopInvariant st s =
     (wellFormed s \<and> frozenUnsolved s \<and> problemCount s = problemCount st \<and>
      started s = started st)"

section \<open>Replaying the frozen submissions of one problem\<close>

lemma replay_solved: "solved ps \<Longrightarrow> replay subs (ps, ch) = (ps, ch)"
  by (induction subs) auto

lemma replay_no_accept:
  "\<not> solved ps \<Longrightarrow> \<forall>s\<in>set subs. status s \<noteq> ''Accepted'' \<Longrightarrow>
   replay subs (ps, ch) = (ps\<lparr>wrongAttempts := wrongAttempts ps + int (length subs)\<rparr>, ch)"
  by (induction subs arbitrary: ps) auto

lemma replay_append:
  "replay (xs @ ys) (ps, ch) = replay ys (replay xs (ps, ch))"
  by (induction xs arbitrary: ps ch) auto

lemma replay_first_accept:
  assumes "\<not> solved ps" "\<forall>s\<in>set pre. status s \<noteq> ''Accepted''" "status a = ''Accepted''"
  shows "replay (pre @ a # post) (ps, ch) =
         (ps\<lparr>wrongAttempts := wrongAttempts ps + int (length pre), solved := True,
             solveTime := time a\<rparr>, True)"
  using assms by (simp add: replay_append replay_no_accept replay_solved)

lemma replay_submissions: "submissions (fst (replay xs (q, ch))) = submissions q"
  by (induction xs arbitrary: q ch) auto

lemma resolveFrozen_clears:
  "frozenSubmissions (fst (resolveFrozen ps)) = 0 \<and> frozenSubs (fst (resolveFrozen ps)) = [] \<and>
   submissions (fst (resolveFrozen ps)) = submissions ps"
  using replay_submissions[of "frozenSubs ps" ps False]
  by (cases "replay (frozenSubs ps) (ps, False)") (simp add: resolveFrozen_def)

text \<open>
  Claim C3. Resolving one frozen problem replays \<open>frozenSubs\<close> in order. The count and
  the list of frozen submissions are cleared whatever the outcome. For a problem not
  solved before (the loop of a run only ever resolves such a problem,
  \<open>resolution_states\<close> at the end): when no
  replayed submission is Accepted, the problem stays unsolved, its solve time is
  untouched and every replayed submission counts as a wrong attempt; when \<open>a\<close> is the
  first Accepted one, after the prefix \<open>pre\<close>, the problem is solved at the time of
  \<open>a\<close>, exactly the submissions of \<open>pre\<close> count as wrong attempts, and the
  submissions \<open>post\<close> after \<open>a\<close> change nothing.
\<close>

theorem resolveFrozen_replays_in_order:
  "frozenSubmissions (fst (resolveFrozen ps)) = 0 \<and> frozenSubs (fst (resolveFrozen ps)) = [] \<and>
   (\<not> solved ps \<longrightarrow>
     ((\<forall>s\<in>set (frozenSubs ps). status s \<noteq> ''Accepted'') \<longrightarrow>
        \<not> solved (fst (resolveFrozen ps)) \<and> solveTime (fst (resolveFrozen ps)) = solveTime ps \<and>
        wrongAttempts (fst (resolveFrozen ps)) = wrongAttempts ps + int (length (frozenSubs ps)) \<and>
        \<not> snd (resolveFrozen ps)) \<and>
     (\<forall>pre a post. frozenSubs ps = pre @ a # post \<and> (\<forall>s\<in>set pre. status s \<noteq> ''Accepted'') \<and>
        status a = ''Accepted'' \<longrightarrow>
        solved (fst (resolveFrozen ps)) \<and> solveTime (fst (resolveFrozen ps)) = time a \<and>
        wrongAttempts (fst (resolveFrozen ps)) = wrongAttempts ps + int (length pre) \<and>
        snd (resolveFrozen ps)))"
proof (intro conjI impI allI)
  show "frozenSubmissions (fst (resolveFrozen ps)) = 0"
    using resolveFrozen_clears by simp
  show "frozenSubs (fst (resolveFrozen ps)) = []"
    using resolveFrozen_clears by simp
qed (simp_all add: resolveFrozen_def replay_no_accept replay_first_accept)

theorem resolveFrozen_replays_in_order_witness:
  "\<not> solved wrongThenAccepted \<and> frozenSubmissions wrongThenAccepted = 2 \<and>
   solved (fst (resolveFrozen wrongThenAccepted)) \<and>
   solveTime (fst (resolveFrozen wrongThenAccepted)) = 7 \<and>
   wrongAttempts (fst (resolveFrozen wrongThenAccepted)) = 1 \<and>
   frozenSubmissions (fst (resolveFrozen wrongThenAccepted)) = 0 \<and>
   frozenSubs (fst (resolveFrozen wrongThenAccepted)) = []"
proof -
  let ?w = "\<lparr>problem = ''B'', status = ''Wrong_Answer'', time = 3\<rparr>"
  let ?a = "\<lparr>problem = ''B'', status = ''Accepted'', time = 7\<rparr>"
  have u: "\<not> solved wrongThenAccepted" "frozenSubmissions wrongThenAccepted = 2"
    "wrongAttempts wrongThenAccepted = 0"
    by (simp_all add: wrongThenAccepted_def newProblemStatus_def)
  have d: "frozenSubs wrongThenAccepted = [?w] @ ?a # [] \<and>
           (\<forall>s\<in>set [?w]. status s \<noteq> ''Accepted'') \<and> status ?a = ''Accepted''"
    by (simp add: wrongThenAccepted_def)
  note r = resolveFrozen_replays_in_order[of wrongThenAccepted]
  from r have clear: "frozenSubmissions (fst (resolveFrozen wrongThenAccepted)) = 0"
    "frozenSubs (fst (resolveFrozen wrongThenAccepted)) = []" by blast+
  from r u(1) have "\<forall>pre a post. frozenSubs wrongThenAccepted = pre @ a # post \<and>
        (\<forall>s\<in>set pre. status s \<noteq> ''Accepted'') \<and> status a = ''Accepted'' \<longrightarrow>
        solved (fst (resolveFrozen wrongThenAccepted)) \<and>
        solveTime (fst (resolveFrozen wrongThenAccepted)) = time a \<and>
        wrongAttempts (fst (resolveFrozen wrongThenAccepted)) =
          wrongAttempts wrongThenAccepted + int (length pre) \<and>
        snd (resolveFrozen wrongThenAccepted)" by blast
  from this[rule_format, OF d] u clear show ?thesis by simp
qed

section \<open>The comparator is a strict total order\<close>

lemma coherent_read: "coherent t \<Longrightarrow> int (length (getSolveTimes t)) = getSolvedCount t"
  by (auto simp: coherent_def getSolveTimes_def getSolvedCount_def updateCache_def)

lemma coherent_updateCache: "coherent t \<Longrightarrow> coherent (updateCache t)"
  by (simp add: coherent_def updateCache_def)

lemma firstDifference_same: "firstDifference xs xs = None"
  by (induction xs) auto

lemma firstDifference_None:
  "length xs = length ys \<Longrightarrow> firstDifference xs ys = None \<Longrightarrow> xs = ys"
  by (induction xs ys rule: firstDifference.induct) (auto split: if_splits)

lemma firstDifference_flip:
  "firstDifference xs ys = Some b \<Longrightarrow> firstDifference ys xs = Some (\<not> b)"
  by (induction xs ys rule: firstDifference.induct) (auto split: if_splits)

lemma firstDifference_trans:
  "length xs = length ys \<Longrightarrow> length ys = length zs \<Longrightarrow>
   firstDifference xs ys = Some True \<Longrightarrow> firstDifference ys zs = Some True \<Longrightarrow>
   firstDifference xs zs = Some True"
proof (induction xs ys arbitrary: zs rule: firstDifference.induct)
  case (1 x xs y ys)
  then obtain z zs' where zs: "zs = z # zs'" by (cases zs) auto
  with 1 show ?case by (auto split: if_splits)
qed auto

lemma teamBefore_iff:
  "teamBefore a b \<longleftrightarrow>
     getSolvedCount (snd a) > getSolvedCount (snd b) \<or>
     (getSolvedCount (snd a) = getSolvedCount (snd b) \<and>
      (getPenaltyTime (snd a) < getPenaltyTime (snd b) \<or>
       (getPenaltyTime (snd a) = getPenaltyTime (snd b) \<and>
        (firstDifference (getSolveTimes (snd a)) (getSolveTimes (snd b)) = Some True \<or>
         (firstDifference (getSolveTimes (snd a)) (getSolveTimes (snd b)) = None \<and>
          fst a < fst b)))))"
  by (auto simp: teamBefore_def Let_def split: option.splits)

lemma solve_times_same_length:
  "coherent t \<Longrightarrow> coherent u \<Longrightarrow> getSolvedCount t = getSolvedCount u \<Longrightarrow>
   length (getSolveTimes t) = length (getSolveTimes u)"
  using coherent_read[of t] coherent_read[of u] by simp

text \<open>
  Claim C5. The verdict of \<^verbatim>\<open>compareTeams\<close> is a strict total order on teams with
  distinct names: no team is before itself, the relation is transitive, and of two
  teams with different names exactly one is before the other. The teams are any team
  objects whose cache, if valid, is one that \<^const>\<open>updateCache\<close> wrote
  (\<^const>\<open>coherent\<close>), which is the case for every team of every state the program
  reaches (\<open>reachable_wellFormed\<close> below); the metrics are the ones the accessors
  return.
\<close>

theorem teamBefore_strict_total_order:
  assumes a: "coherent (snd a)" and b: "coherent (snd b)" and c: "coherent (snd c)"
  shows "\<not> teamBefore a a \<and>
         (teamBefore a b \<and> teamBefore b c \<longrightarrow> teamBefore a c) \<and>
         (fst a \<noteq> fst b \<longrightarrow> (teamBefore a b \<longleftrightarrow> \<not> teamBefore b a))"
proof (intro conjI impI)
  show "\<not> teamBefore a a"
    by (simp add: teamBefore_iff firstDifference_same)
next
  let ?A = "getSolveTimes (snd a)" and ?B = "getSolveTimes (snd b)" and ?C = "getSolveTimes (snd c)"
  assume h: "teamBefore a b \<and> teamBefore b c"
  show "teamBefore a c"
  proof (cases "getSolvedCount (snd a) = getSolvedCount (snd b) \<and>
                getSolvedCount (snd b) = getSolvedCount (snd c)")
    case False
    with h show ?thesis by (auto simp: teamBefore_iff)
  next
    case True
    from True have l1: "length ?A = length ?B" and l2: "length ?B = length ?C"
      using solve_times_same_length[OF a b] solve_times_same_length[OF b c] by auto
    show ?thesis
    proof (cases "getPenaltyTime (snd a) = getPenaltyTime (snd b) \<and>
                  getPenaltyTime (snd b) = getPenaltyTime (snd c)")
      case False
      with h True show ?thesis by (auto simp: teamBefore_iff)
    next
      case P: True
      from h True P
      have hab: "firstDifference ?A ?B = Some True \<or> (firstDifference ?A ?B = None \<and> fst a < fst b)"
        and hbc: "firstDifference ?B ?C = Some True \<or> (firstDifference ?B ?C = None \<and> fst b < fst c)"
        by (auto simp: teamBefore_iff)
      have "firstDifference ?A ?C = Some True \<or> (firstDifference ?A ?C = None \<and> fst a < fst c)"
      proof (cases "firstDifference ?A ?B")
        case None
        then have eq: "?A = ?B" using firstDifference_None[OF l1] by simp
        from None hab have "fst a < fst b" by simp
        with hbc eq show ?thesis by auto
      next
        case (Some v)
        with hab have ab: "firstDifference ?A ?B = Some True" by simp
        show ?thesis
        proof (cases "firstDifference ?B ?C")
          case None
          then have "?B = ?C" using firstDifference_None[OF l2] by simp
          with ab show ?thesis by simp
        next
          case (Some w)
          with hbc have "firstDifference ?B ?C = Some True" by simp
          from firstDifference_trans[OF l1 l2 ab this] show ?thesis by simp
        qed
      qed
      with True P show ?thesis by (auto simp: teamBefore_iff)
    qed
  qed
next
  let ?A = "getSolveTimes (snd a)" and ?B = "getSolveTimes (snd b)"
  assume ne: "fst a \<noteq> fst b"
  show "teamBefore a b \<longleftrightarrow> \<not> teamBefore b a"
  proof (cases "getSolvedCount (snd a) = getSolvedCount (snd b) \<and>
                getPenaltyTime (snd a) = getPenaltyTime (snd b)")
    case False
    then show ?thesis by (auto simp: teamBefore_iff)
  next
    case True
    show ?thesis
    proof (cases "firstDifference ?A ?B")
      case None
      have l1: "length ?A = length ?B"
        using solve_times_same_length[OF a b] True by simp
      from firstDifference_None[OF l1 None] have "firstDifference ?B ?A = None"
        by (simp add: firstDifference_same)
      with None True ne show ?thesis by (auto simp: teamBefore_iff)
    next
      case (Some v)
      from firstDifference_flip[OF Some] Some True show ?thesis by (auto simp: teamBefore_iff)
    qed
  qed
qed

theorem teamBefore_strict_total_order_witness:
  "coherent (snd teamY) \<and> coherent (snd teamX) \<and> coherent (snd teamZ) \<and>
   teamBefore teamY teamX \<and> teamBefore teamX teamZ \<and> teamBefore teamY teamZ \<and>
   fst teamY \<noteq> fst teamX \<and> \<not> teamBefore teamX teamY"
proof -
  have c: "coherent (snd teamX)" "coherent (snd teamY)" "coherent (snd teamZ)"
    by (simp_all add: coherent_def teamX_def teamY_def teamZ_def newTeam_def)
  have yx: "teamBefore teamY teamX" by code_simp
  have xz: "teamBefore teamX teamZ" by code_simp
  have ne: "fst teamY \<noteq> fst teamX" by (simp add: teamX_def teamY_def)
  from teamBefore_strict_total_order[OF c(2) c(1) c(3)] yx xz ne c show ?thesis by blast
qed

section \<open>The submission query\<close>

lemma problemKeys_all: "set problemKeys = UNIV" "distinct problemKeys"
  by (simp_all add: problemKeys_def enum_UNIV enum_distinct)

lemma problemKeys_sorted: "sorted problemKeys"
  by code_simp

lemma scanSubmissions_append:
  "scanSubmissions p s (xs @ ys) acc = scanSubmissions p s ys (scanSubmissions p s xs acc)"
  by (induction xs arbitrary: acc) auto

lemma scanSubmissions_concat:
  "foldl (\<lambda>l c. scanSubmissions p s (f c) l) acc ks = scanSubmissions p s (concat (map f ks)) acc"
  by (induction ks arbitrary: acc) (auto simp: scanSubmissions_append)

lemma findLastMatch_scan:
  "findLastMatch team p s = scanSubmissions p s (recordedSubmissions team) None"
  by (simp add: findLastMatch_def recordedSubmissions_def scanSubmissions_concat)

lemma scanSubmissions_None:
  "(scanSubmissions p s xs None = None) = (\<forall>x\<in>set xs. \<not> matchesFilters p s x)"
proof (induction xs rule: rev_induct)
  case Nil
  then show ?case by simp
next
  case (snoc x xs)
  then show ?case by (auto simp: scanSubmissions_append split: option.splits if_splits)
qed

text \<open>
  The scan keeps a match only when its time is strictly greater than the time of the
  match held so far: the result is the first match, in the order of the scan, whose
  time no other match exceeds.
\<close>

lemma scanSubmissions_Some:
  "scanSubmissions p s xs None = Some l \<Longrightarrow>
   \<exists>pre post. xs = pre @ l # post \<and> matchesFilters p s l \<and>
     (\<forall>x\<in>set pre. matchesFilters p s x \<longrightarrow> time x < time l) \<and>
     (\<forall>x\<in>set post. matchesFilters p s x \<longrightarrow> time x \<le> time l)"
proof (induction xs arbitrary: l rule: rev_induct)
  case Nil
  then show ?case by simp
next
  case (snoc x xs)
  show ?case
  proof (cases "scanSubmissions p s xs None")
    case None
    with snoc.prems have m: "matchesFilters p s x" "l = x"
      by (auto simp: scanSubmissions_append split: if_splits)
    from None have "\<forall>y\<in>set xs. \<not> matchesFilters p s y" by (simp add: scanSubmissions_None)
    with m show ?thesis by (intro exI[of _ xs] exI[of _ "[]"]) auto
  next
    case (Some l0)
    from snoc.IH[OF Some] obtain pre post where d: "xs = pre @ l0 # post" "matchesFilters p s l0"
      "\<forall>y\<in>set pre. matchesFilters p s y \<longrightarrow> time y < time l0"
      "\<forall>y\<in>set post. matchesFilters p s y \<longrightarrow> time y \<le> time l0" by blast
    show ?thesis
    proof (cases "matchesFilters p s x \<and> time x > time l0")
      case True
      with Some snoc.prems have "l = x" by (auto simp: scanSubmissions_append)
      with True d show ?thesis by (intro exI[of _ xs] exI[of _ "[]"]) force
    next
      case False
      with Some snoc.prems have "l = l0"
        by (auto simp: scanSubmissions_append split: if_splits)
      with False d show ?thesis by (intro exI[of _ pre] exI[of _ "post @ [x]"]) auto
    qed
  qed
qed

lemma map_of_updateTeam:
  "map_of (updateTeam n t ts) m =
     (if m = n then map_option (\<lambda>_. t) (map_of ts n) else map_of ts m)"
  by (induction ts) (auto simp: updateTeam_def)

lemma recordedSubmissions_mem:
  "x \<in> set (submissions (problems team c)) \<Longrightarrow> x \<in> set (recordedSubmissions team)"
  by (auto simp: recordedSubmissions_def problemKeys_all)

lemma submit_records:
  assumes "submit pn n stat tm st = Inr st'"
  shows "\<exists>team'. map_of (teams st') n = Some team' \<and>
           \<lparr>problem = pn, status = stat, time = tm\<rparr>
             \<in> set (submissions (problems team' (firstChar pn)))"
  using assms
  by (auto simp: submit_def Let_def map_of_updateTeam invalidateCache_def
           split: option.splits if_splits)

lemma querySubmission_prints:
  "map_of (teams st) n = Some team \<Longrightarrow>
   querySubmission n p s st =
     Info ''Complete query submission.''
     # (case findLastMatch team p s of
          None \<Rightarrow> [NoSubmission]
        | Some l \<Rightarrow> [SubmissionLine n (problem l) (status l) (time l)])"
  by (simp add: querySubmission_def)

text \<open>
  Claim C1 fails as stated. \<^verbatim>\<open>submit\<close> appends every submission to \<^verbatim>\<open>submissions\<close>
  before it looks at the freeze flag, and the query scans \<^verbatim>\<open>submissions\<close>. In the run
  \<^const>\<open>frozenQuery\<close> the contest is frozen, the Accepted submission at time 5 sits in
  the frozen list of problem A, not resolved by any scroll, and the query prints it.
\<close>

theorem querySubmission_returns_frozen_counterexample:
  "printed (run frozenQuery initialSystem) =
     Some [Info ''Add successfully.'', Info ''Competition starts.'', Info ''Freeze scoreboard.'',
           Info ''Complete query submission.'', SubmissionLine ''a'' ''A'' ''Accepted'' 5] \<and>
   map_option frozen (finalState (run frozenQuery initialSystem)) = Some True \<and>
   map_option frozenSubs
     (Option.bind (finalState (run frozenQuery initialSystem)) (problemAt ''a'' CHR ''A''))
     = Some [\<lparr>problem = ''A'', status = ''Accepted'', time = 5\<rparr>]"
  by code_simp

text \<open>
  Claim C1, amended. For every team and every pair of filters, \<^verbatim>\<open>lastMatch\<close> is null
  exactly when no recorded submission of the team matches; otherwise it is a recorded
  submission that matches and whose time no matching recorded submission exceeds. The
  recorded submissions are all of them, frozen or not: whatever the freeze flag, a
  submission that \<^verbatim>\<open>submit\<close> accepts is among the recorded submissions of its team
  afterwards.
\<close>

theorem querySubmission_greatest_of_all_recorded:
  "(findLastMatch team p s = None \<longleftrightarrow>
      (\<forall>x\<in>set (recordedSubmissions team). \<not> matchesFilters p s x)) \<and>
   (\<forall>l. findLastMatch team p s = Some l \<longrightarrow>
      l \<in> set (recordedSubmissions team) \<and> matchesFilters p s l \<and>
      (\<forall>x\<in>set (recordedSubmissions team). matchesFilters p s x \<longrightarrow> time x \<le> time l)) \<and>
   (\<forall>st st' n pn stat tm. submit pn n stat tm st = Inr st' \<longrightarrow>
      (\<exists>team'. map_of (teams st') n = Some team' \<and>
         \<lparr>problem = pn, status = stat, time = tm\<rparr> \<in> set (recordedSubmissions team')))"
proof (intro conjI allI impI)
  show "findLastMatch team p s = None \<longleftrightarrow>
        (\<forall>x\<in>set (recordedSubmissions team). \<not> matchesFilters p s x)"
    by (simp add: findLastMatch_scan scanSubmissions_None)
next
  fix l assume "findLastMatch team p s = Some l"
  then obtain pre post where d: "recordedSubmissions team = pre @ l # post" "matchesFilters p s l"
      "\<forall>x\<in>set pre. matchesFilters p s x \<longrightarrow> time x < time l"
      "\<forall>x\<in>set post. matchesFilters p s x \<longrightarrow> time x \<le> time l"
    using scanSubmissions_Some[of p s "recordedSubmissions team" l]
    by (auto simp: findLastMatch_scan)
  show "l \<in> set (recordedSubmissions team)" using d(1) by simp
  show "matchesFilters p s l" by (rule d(2))
  show "\<forall>x\<in>set (recordedSubmissions team). matchesFilters p s x \<longrightarrow> time x \<le> time l"
    using d by (auto simp: less_imp_le)
next
  fix st st' n pn stat tm assume "submit pn n stat tm st = Inr st'"
  from submit_records[OF this]
  show "\<exists>team'. map_of (teams st') n = Some team' \<and>
         \<lparr>problem = pn, status = stat, time = tm\<rparr> \<in> set (recordedSubmissions team')"
    by (blast intro: recordedSubmissions_mem)
qed

theorem querySubmission_greatest_of_all_recorded_witness:
  "findLastMatch tiedTeam ''ALL'' ''Accepted'' =
     Some \<lparr>problem = ''A'', status = ''Accepted'', time = 5\<rparr> \<and>
   \<lparr>problem = ''A'', status = ''Accepted'', time = 5\<rparr> \<in> set (recordedSubmissions tiedTeam) \<and>
   matchesFilters ''ALL'' ''Accepted'' \<lparr>problem = ''A'', status = ''Accepted'', time = 5\<rparr> \<and>
   frozen frozenSystem \<and>
   (\<exists>st' team'. submit ''A'' ''a'' ''Accepted'' 5 frozenSystem = Inr st' \<and>
      map_of (teams st') ''a'' = Some team' \<and>
      \<lparr>problem = ''A'', status = ''Accepted'', time = 5\<rparr> \<in> set (recordedSubmissions team'))"
proof -
  note t = querySubmission_greatest_of_all_recorded[of tiedTeam "''ALL''" "''Accepted''"]
  have f: "findLastMatch tiedTeam ''ALL'' ''Accepted'' =
     Some \<lparr>problem = ''A'', status = ''Accepted'', time = 5\<rparr>"
    by code_simp
  from t f have m: "\<lparr>problem = ''A'', status = ''Accepted'', time = 5\<rparr>
       \<in> set (recordedSubmissions tiedTeam) \<and>
     matchesFilters ''ALL'' ''Accepted'' \<lparr>problem = ''A'', status = ''Accepted'', time = 5\<rparr>"
    by blast
  have fr: "frozen frozenSystem" by (simp add: frozenSystem_def)
  have "\<exists>st'. submit ''A'' ''a'' ''Accepted'' 5 frozenSystem = Inr st'"
    by (simp add: submit_def frozenSystem_def Let_def)
  then obtain st' where s: "submit ''A'' ''a'' ''Accepted'' 5 frozenSystem = Inr st'" ..
  from t s have "\<exists>team'. map_of (teams st') ''a'' = Some team' \<and>
      \<lparr>problem = ''A'', status = ''Accepted'', time = 5\<rparr> \<in> set (recordedSubmissions team')"
    by blast
  with s f m fr show ?thesis by blast
qed




text \<open>
  Under a key from 0x80 on the two orders part: with a submission under the key 0x80
  tied with one under the key A, the scan by character code returns the one under A
  and the scan in signed order the one under 0x80.
\<close>

lemma signed_order_differs:
  "\<not> plainSubmissions highKeyTeam \<and>
   findLastMatch highKeyTeam ''ALL'' ''ALL'' =
     Some \<lparr>problem = ''A'', status = ''Wrong_Answer'', time = 5\<rparr> \<and>
   lastMatchIn signedKeys highKeyTeam ''ALL'' ''ALL'' =
     Some \<lparr>problem = [CHR 0x80], status = ''Wrong_Answer'', time = 5\<rparr>"
proof (intro conjI)
  have "(128::nat) \<le> of_char (CHR 0x80)" by simp
  moreover have "submissions (problems highKeyTeam (CHR 0x80)) \<noteq> []"
    by (simp add: highKeyTeam_def)
  ultimately show "\<not> plainSubmissions highKeyTeam" unfolding plainSubmissions_def by blast
  show "findLastMatch highKeyTeam ''ALL'' ''ALL'' =
     Some \<lparr>problem = ''A'', status = ''Wrong_Answer'', time = 5\<rparr>" by code_simp
  show "lastMatchIn signedKeys highKeyTeam ''ALL'' ''ALL'' =
     Some \<lparr>problem = [CHR 0x80], status = ''Wrong_Answer'', time = 5\<rparr>" by code_simp
qed

lemma findLastMatch_lastMatchIn: "findLastMatch team p s = lastMatchIn problemKeys team p s"
  by (simp add: findLastMatch_def lastMatchIn_def)




section \<open>Failures\<close>

lemma submit_unknown_team:
  "map_of (teams st) n = None \<Longrightarrow> submit p n s t st = Inl NullDereference"
  by (simp add: submit_def)

lemma query_unknown_team:
  "map_of (teams st) n = None \<Longrightarrow>
   exec (QUERY_RANKING n) st =
     Some (Inr (st, [Error ''Query ranking failed: cannot find the team.''])) \<and>
   exec (QUERY_SUBMISSION n p s) st =
     Some (Inr (st, [Error ''Query submission failed: cannot find the team.'']))"
  by (simp add: queryRanking_def querySubmission_def)

lemma freeze_while_frozen:
  "frozen st \<Longrightarrow>
   exec FREEZE st = Some (Inr (st, [Error ''Freeze failed: scoreboard has been frozen.'']))"
  by (simp add: freeze_def)

lemma scroll_while_unfrozen:
  "\<not> frozen st \<Longrightarrow>
   exec SCROLL st = Some (Inr (st, [Error ''Scroll failed: scoreboard has not been frozen.'']))"
  by (simp add: scroll_def)

lemma add_or_start_after_start:
  "started st \<Longrightarrow>
   exec (ADDTEAM n) st = Some (Inr (st, [Error ''Add failed: competition has started.''])) \<and>
   exec (START d pc) st = Some (Inr (st, [Error ''Start failed: competition has started.'']))"
  by (simp add: addTeam_def startCompetition_def)

text \<open>
  Claim C7 against the code. The two queries look the team up with \<^verbatim>\<open>find\<close> and report
  an unknown name; \<^verbatim>\<open>submit\<close> does not: it indexes the table with the unknown name and
  writes through the null pointer it gets. The run \<^const>\<open>unknownTeamSubmit\<close> ends
  there: nothing is reported and the command after the submission is never processed.
\<close>

theorem submit_unknown_team_is_fatal:
  "run unknownTeamSubmit initialSystem = Some (Inl NullDereference)"
  by code_simp

section \<open>The team table under cache refreshes\<close>

lemma keys_updateTeam: "map fst (updateTeam n t ts) = map fst ts"
  by (induction ts) (auto simp: updateTeam_def)

lemma updateCache_idem: "updateCache (updateCache t) = updateCache t"
  by (simp add: updateCache_def)

lemma get_updateCache:
  "getSolvedCount (updateCache t) = getSolvedCount t"
  "getPenaltyTime (updateCache t) = getPenaltyTime t"
  "getSolveTimes (updateCache t) = getSolveTimes t"
  by (simp_all add: getSolvedCount_def getPenaltyTime_def getSolveTimes_def updateCache_idem)

lemma teamBefore_updateCache:
  "teamBefore (a, updateCache ta) e = teamBefore (a, ta) e"
  "teamBefore e (a, updateCache ta) = teamBefore e (a, ta)"
  by (simp_all add: teamBefore_iff get_updateCache)

lemma refreshedFrom_refl: "refreshedFrom ts ts"
  by (simp add: refreshedFrom_def)

lemma refreshedFrom_trans:
  assumes "refreshedFrom ts ts'" "refreshedFrom ts' ts''"
  shows "refreshedFrom ts ts''"
  unfolding refreshedFrom_def
proof (intro conjI allI)
  show "map fst ts'' = map fst ts" using assms by (simp add: refreshedFrom_def)
  fix m
  from assms have 1: "map_of ts' m = map_of ts m \<or> map_of ts' m = map_option updateCache (map_of ts m)"
    and 2: "map_of ts'' m = map_of ts' m \<or> map_of ts'' m = map_option updateCache (map_of ts' m)"
    by (simp_all add: refreshedFrom_def)
  then show "map_of ts'' m = map_of ts m \<or> map_of ts'' m = map_option updateCache (map_of ts m)"
    by (cases "map_of ts m") (auto simp: updateCache_idem)
qed

lemma refreshedFrom_updateTeam:
  "map_of ts n = Some t \<Longrightarrow> refreshedFrom ts (updateTeam n (updateCache t) ts)"
  by (auto simp: refreshedFrom_def keys_updateTeam map_of_updateTeam)

lemma better_refreshed: "refreshedFrom ts ts' \<Longrightarrow> better ts' a b = better ts a b"
proof -
  assume r: "refreshedFrom ts ts'"
  then have a: "map_of ts' a = map_of ts a \<or> map_of ts' a = map_option updateCache (map_of ts a)"
    and b: "map_of ts' b = map_of ts b \<or> map_of ts' b = map_option updateCache (map_of ts b)"
    by (simp_all add: refreshedFrom_def)
  then show ?thesis
    by (cases "map_of ts a"; cases "map_of ts b") (auto simp: better_def teamBefore_updateCache)
qed

lemma compareTeams_present:
  assumes "map_of ts a = Some ta" "map_of ts b = Some tb"
  shows "\<exists>ts'. compareTeams ts a b = Inr (better ts a b, ts') \<and> refreshedFrom ts ts' \<and>
           map_of ts' a = Some (updateCache ta)"
proof -
  let ?ts1 = "updateTeam a (updateCache ta) ts"
  let ?ts2 = "updateTeam b (updateCache tb) ?ts1"
  have c: "compareTeams ts a b = Inr (better ts a b, ?ts2)"
    using assms by (simp add: compareTeams_def better_def)
  have r1: "refreshedFrom ts ?ts1" using assms(1) by (rule refreshedFrom_updateTeam)
  have m: "map_of ?ts1 b = Some (if b = a then updateCache ta else tb)"
    using assms by (simp add: map_of_updateTeam)
  have "?ts2 = updateTeam b (updateCache (if b = a then updateCache ta else tb)) ?ts1"
    using assms by (auto simp: updateCache_idem)
  with refreshedFrom_updateTeam[OF m] have r2: "refreshedFrom ?ts1 ?ts2" by simp
  have "map_of ?ts2 a = Some (updateCache ta)"
    using assms by (auto simp: map_of_updateTeam)
  with c refreshedFrom_trans[OF r1 r2] show ?thesis by blast
qed

lemma compareTeams_Inr:
  "compareTeams ts a b = Inr (v, ts') \<Longrightarrow> refreshedFrom ts ts' \<and> v = better ts a b"
  using compareTeams_present[of ts a _ b]
  by (cases "map_of ts a"; cases "map_of ts b") (auto simp: compareTeams_def)

lemma refreshedFrom_present: "refreshedFrom ts ts' \<Longrightarrow> map_of ts' m = None \<longleftrightarrow> map_of ts m = None"
  by (auto simp: refreshedFrom_def dest: spec[of _ m])

lemma bubble_present:
  assumes "map_of ts n = Some t" "\<forall>j<k. map_of ts (rk ! j) \<noteq> None"
  shows "\<exists>new ts'. bubble ts n rk k = Inr (new, ts') \<and> refreshedFrom ts ts' \<and> new \<le> k \<and>
           (\<forall>j. new \<le> j \<and> j < k \<longrightarrow> better ts n (rk ! j)) \<and>
           (new = 0 \<or> \<not> better ts n (rk ! (new - 1))) \<and>
           (0 < k \<longrightarrow> map_of ts' n = Some (updateCache t))"
  using assms
proof (induction k arbitrary: ts t)
  case 0
  then show ?case by (simp add: refreshedFrom_refl)
next
  case (Suc k)
  from Suc.prems obtain tb where tb: "map_of ts (rk ! k) = Some tb" by auto
  from compareTeams_present[OF Suc.prems(1) tb] obtain ts1 where
    c: "compareTeams ts n (rk ! k) = Inr (better ts n (rk ! k), ts1)" and r: "refreshedFrom ts ts1"
    and n1: "map_of ts1 n = Some (updateCache t)" by blast
  show ?case
  proof (cases "better ts n (rk ! k)")
    case False
    have bub: "bubble ts n rk (Suc k) = Inr (Suc k, ts1)"
      by (simp only: bubble.simps c sum.case prod.case False if_False)
    show ?thesis
    proof (intro exI[of _ "Suc k"] exI[of _ ts1] conjI)
      show "bubble ts n rk (Suc k) = Inr (Suc k, ts1)" by (rule bub)
      show "refreshedFrom ts ts1" by (rule r)
      show "Suc k \<le> Suc k" by simp
      show "\<forall>j. Suc k \<le> j \<and> j < Suc k \<longrightarrow> better ts n (rk ! j)" by auto
      show "Suc k = 0 \<or> \<not> better ts n (rk ! (Suc k - 1))" using False by simp
      show "0 < Suc k \<longrightarrow> map_of ts1 n = Some (updateCache t)" using n1 by simp
    qed
  next
    case True
    have p: "\<forall>j<k. map_of ts1 (rk ! j) \<noteq> None"
    proof (intro allI impI)
      fix j assume "j < k"
      then have "map_of ts (rk ! j) \<noteq> None" using Suc.prems(2) by simp
      then show "map_of ts1 (rk ! j) \<noteq> None" by (simp add: refreshedFrom_present[OF r])
    qed
    from Suc.IH[OF n1 p] obtain new ts' where
      b: "bubble ts1 n rk k = Inr (new, ts')" and r': "refreshedFrom ts1 ts'" and le: "new \<le> k"
      and all: "\<forall>j. new \<le> j \<and> j < k \<longrightarrow> better ts1 n (rk ! j)"
      and stop: "new = 0 \<or> \<not> better ts1 n (rk ! (new - 1))"
      and upd: "0 < k \<longrightarrow> map_of ts' n = Some (updateCache (updateCache t))"
      by (elim exE conjE) (rule that)
    have bub: "bubble ts n rk (Suc k) = Inr (new, ts')"
      by (simp only: bubble.simps c sum.case prod.case True if_True b)
    have rr: "refreshedFrom ts ts'" by (rule refreshedFrom_trans[OF r r'])
    have all': "\<forall>j. new \<le> j \<and> j < Suc k \<longrightarrow> better ts n (rk ! j)"
    proof (intro allI impI)
      fix j assume j: "new \<le> j \<and> j < Suc k"
      show "better ts n (rk ! j)"
      proof (cases "j = k")
        case True
        with \<open>better ts n (rk ! k)\<close> show ?thesis by simp
      next
        case False
        with j have "new \<le> j \<and> j < k" by simp
        with all have "better ts1 n (rk ! j)" by blast
        then show ?thesis by (simp add: better_refreshed[OF r])
      qed
    qed
    have stop': "new = 0 \<or> \<not> better ts n (rk ! (new - 1))"
      using stop better_refreshed[OF r] by simp
    have n': "map_of ts' n = Some (updateCache t)"
    proof (cases k)
      case 0
      with b have "ts' = ts1" by simp
      with n1 show ?thesis by simp
    next
      case (Suc k')
      with upd show ?thesis by (simp add: updateCache_idem)
    qed
    from le have le': "new \<le> Suc k" by simp
    show ?thesis
      by (intro exI[of _ new] exI[of _ ts'] conjI impI) (rule bub rr le' all' stop' n')+
  qed
qed

section \<open>Choosing the problem to resolve\<close>

lemma foldl_min_le:
  "foldl (\<lambda>sm prob. if P prob then min sm prob else sm) (s::char) cs \<le> s"
proof (induction cs arbitrary: s)
  case Nil
  then show ?case by simp
next
  case (Cons a cs)
  show ?case
  proof (cases "P a")
    case True
    have "foldl (\<lambda>sm prob. if P prob then min sm prob else sm) (min s a) cs \<le> min s a"
      by (rule Cons.IH)
    also have "\<dots> \<le> s" by simp
    finally show ?thesis using True by simp
  next
    case False
    with Cons.IH[of s] show ?thesis by simp
  qed
qed

lemma foldl_min_lower:
  "c \<in> set cs \<Longrightarrow> P c \<Longrightarrow> foldl (\<lambda>sm prob. if P prob then min sm prob else sm) (s::char) cs \<le> c"
proof (induction cs arbitrary: s)
  case Nil
  then show ?case by simp
next
  case (Cons x xs)
  show ?case
  proof (cases "c = x")
    case True
    with Cons.prems have "foldl (\<lambda>sm prob. if P prob then min sm prob else sm) s (x # xs)
       = foldl (\<lambda>sm prob. if P prob then min sm prob else sm) (min s x) xs" by simp
    also have "\<dots> \<le> min s x" by (rule foldl_min_le)
    also have "\<dots> \<le> c" using True by simp
    finally show ?thesis .
  next
    case False
    with Cons.prems have "c \<in> set xs" by simp
    from Cons.IH[OF this Cons.prems(2)] show ?thesis by simp
  qed
qed

lemma foldl_min_mem:
  "foldl (\<lambda>sm prob. if P prob then min sm prob else sm) (s::char) cs = s \<or>
   (foldl (\<lambda>sm prob. if P prob then min sm prob else sm) s cs \<in> set cs \<and>
    P (foldl (\<lambda>sm prob. if P prob then min sm prob else sm) s cs))"
proof (induction cs arbitrary: s)
  case Nil
  then show ?case by simp
next
  case (Cons x xs)
  show ?case
  proof (cases "P x")
    case False
    with Cons.IH[of s] show ?thesis by auto
  next
    case True
    from Cons.IH[of "min s x"] True show ?thesis by (auto simp: min_def split: if_splits)
  qed
qed

lemma smallestFrozen_lower: "hasFrozen pc team c \<Longrightarrow> smallestFrozen pc team \<le> c"
  unfolding smallestFrozen_def hasFrozen_def
  by (rule foldl_min_lower) auto

lemma smallestFrozen_mem:
  "smallestFrozen pc team \<le> CHR ''Z'' \<Longrightarrow> hasFrozen pc team (smallestFrozen pc team)"
proof -
  assume z: "smallestFrozen pc team \<le> CHR ''Z''"
  have "char_of (of_char CHR ''Z'' + (1::nat)) > CHR ''Z''" by code_simp
  with z have "smallestFrozen pc team \<noteq> char_of (of_char CHR ''Z'' + (1::nat))" by auto
  with foldl_min_mem[of "\<lambda>prob. frozenSubmissions (problems team prob) > 0"
      "char_of (of_char CHR ''Z'' + (1::nat))" "contestProblems pc"]
  show ?thesis unfolding smallestFrozen_def hasFrozen_def by blast
qed

lemma problemLetter_le_Z: "i < 26 \<Longrightarrow> problemLetter i \<le> CHR ''Z''"
  by (simp add: problemLetter_def less_eq_char_def)

lemma contestProblems_letters:
  "pc \<le> 26 \<Longrightarrow> c \<in> set (contestProblems pc) \<Longrightarrow> c \<le> CHR ''Z''"
  by (auto simp: contestProblems_def intro!: problemLetter_le_Z)

lemma smallestFrozen_iff:
  "pc \<le> 26 \<Longrightarrow> smallestFrozen pc team \<le> CHR ''Z'' \<longleftrightarrow> (\<exists>c. hasFrozen pc team c)"
proof
  assume "smallestFrozen pc team \<le> CHR ''Z''"
  then show "\<exists>c. hasFrozen pc team c" using smallestFrozen_mem by blast
next
  assume pc: "pc \<le> 26" and "\<exists>c. hasFrozen pc team c"
  then obtain c where c: "hasFrozen pc team c" by blast
  then have "c \<le> CHR ''Z''" using contestProblems_letters[OF pc] by (simp add: hasFrozen_def)
  with smallestFrozen_lower[OF c] show "smallestFrozen pc team \<le> CHR ''Z''" by (rule order_trans)
qed

lemma findFrozen_Some:
  "findFrozen ts pc ns = Inr (Some (n, c)) \<Longrightarrow>
   \<exists>pre post team. ns = pre @ n # post \<and> map_of ts n = Some team \<and>
     c = smallestFrozen pc team \<and> c \<le> CHR ''Z'' \<and>
     (\<forall>m\<in>set pre. \<exists>t. map_of ts m = Some t \<and> \<not> smallestFrozen pc t \<le> CHR ''Z'')"
proof (induction ns)
  case Nil
  then show ?case by simp
next
  case (Cons m ns)
  from Cons.prems obtain t where t: "map_of ts m = Some t"
    by (cases "map_of ts m") auto
  show ?case
  proof (cases "smallestFrozen pc t \<le> CHR ''Z''")
    case True
    with Cons.prems t have "n = m" "c = smallestFrozen pc t" by auto
    with t True show ?thesis by (intro exI[of _ "[]"] exI[of _ ns] exI[of _ t]) simp
  next
    case False
    with Cons.prems t have "findFrozen ts pc ns = Inr (Some (n, c))" by simp
    from Cons.IH[OF this] obtain pre post team where d: "ns = pre @ n # post"
      "map_of ts n = Some team" "c = smallestFrozen pc team" "c \<le> CHR ''Z''"
      "\<forall>m\<in>set pre. \<exists>t. map_of ts m = Some t \<and> \<not> smallestFrozen pc t \<le> CHR ''Z''"
      by (elim exE conjE) (rule that)
    with t False show ?thesis by (intro exI[of _ "m # pre"] exI[of _ post] exI[of _ team]) simp
  qed
qed

lemma findFrozen_None:
  "findFrozen ts pc ns = Inr None \<Longrightarrow>
   \<forall>m\<in>set ns. \<exists>t. map_of ts m = Some t \<and> \<not> smallestFrozen pc t \<le> CHR ''Z''"
  by (induction ns) (auto split: option.splits if_splits)

lemma findFrozen_Inl:
  "findFrozen ts pc ns = Inl e \<Longrightarrow> \<exists>m\<in>set ns. map_of ts m = None"
  by (induction ns) (auto split: option.splits if_splits)

lemma ex_facts:
  "problemCount scrollExample \<le> 26"
  "\<forall>m\<in>set (ranking scrollExample). map_of (teams scrollExample) m \<noteq> None"
  "distinct (ranking scrollExample)"
  "indexOf (ranking scrollExample) ''b'' = Some 1"
  "map_of (teams scrollExample) ''b'' = Some teamB"
  by (simp_all add: scrollExample_def teamB_def)

lemma ex_target: "findTarget scrollExample = Inr (Some (''b'', CHR ''B''))"
  by code_simp

lemma ex_changed: "snd (resolveFrozen (problems teamB CHR ''B''))"
  by code_simp

lemma ex_out: "map_sum id snd (scrollStep scrollExample ''b'' CHR ''B'') = Inr [RankChange ''b'' ''a'' 1 5]"
  by code_simp

lemma findTarget_Some:
  assumes pc: "problemCount st \<le> 26" and f: "findTarget st = Inr (Some (n, c))"
  shows "\<exists>i team. i < length (ranking st) \<and> ranking st ! i = n \<and>
           map_of (teams st) n = Some team \<and> hasFrozen (problemCount st) team c \<and>
           (\<forall>c'. hasFrozen (problemCount st) team c' \<longrightarrow> c \<le> c') \<and>
           (\<forall>k. i < k \<and> k < length (ranking st) \<longrightarrow> \<not> teamHasFrozen st (ranking st ! k))"
proof -
  from f have "findFrozen (teams st) (problemCount st) (rev (ranking st)) = Inr (Some (n, c))"
    by (simp add: findTarget_def)
  from findFrozen_Some[OF this] obtain pre post team where
    d: "rev (ranking st) = pre @ n # post" and t: "map_of (teams st) n = Some team"
    and c: "c = smallestFrozen (problemCount st) team" and z: "c \<le> CHR ''Z''"
    and pre: "\<forall>m\<in>set pre. \<exists>t. map_of (teams st) m = Some t \<and>
                \<not> smallestFrozen (problemCount st) t \<le> CHR ''Z''"
    by (elim exE conjE) (rule that)
  from d have rk: "ranking st = rev post @ n # rev pre"
    by (metis rev_append rev.simps(2) rev_rev_ident append_Cons append_Nil append_assoc)
  let ?i = "length post"
  have i: "?i < length (ranking st)" using rk by simp
  have at: "ranking st ! ?i = n" using rk by (simp add: nth_append)
  have hf: "hasFrozen (problemCount st) team c" using smallestFrozen_mem z c by simp
  have low: "\<forall>c'. hasFrozen (problemCount st) team c' \<longrightarrow> c \<le> c'"
    using smallestFrozen_lower c by simp
  have above: "\<forall>k. ?i < k \<and> k < length (ranking st) \<longrightarrow> \<not> teamHasFrozen st (ranking st ! k)"
  proof (intro allI impI)
    fix k assume k: "?i < k \<and> k < length (ranking st)"
    then have "ranking st ! k = rev pre ! (k - Suc ?i)"
      using rk by (simp add: nth_append nth_Cons')
    moreover from k rk have "k - Suc ?i < length (rev pre)" by auto
    ultimately have "ranking st ! k \<in> set pre"
      by (metis nth_mem set_rev)
    with pre obtain t' where t': "map_of (teams st) (ranking st ! k) = Some t'"
      "\<not> smallestFrozen (problemCount st) t' \<le> CHR ''Z''" by blast
    with smallestFrozen_iff[OF pc, of t'] show "\<not> teamHasFrozen st (ranking st ! k)"
      by (simp add: teamHasFrozen_def)
  qed
  show ?thesis
    by (intro exI[of _ ?i] exI[of _ team] conjI) (rule i at t hf low above)+
qed

lemma findTarget_None:
  assumes pc: "problemCount st \<le> 26" and f: "findTarget st = Inr None"
  shows "\<forall>m\<in>set (ranking st). \<not> teamHasFrozen st m"
proof
  fix m assume m: "m \<in> set (ranking st)"
  from f have "findFrozen (teams st) (problemCount st) (rev (ranking st)) = Inr None"
    by (simp add: findTarget_def)
  from findFrozen_None[OF this] m obtain t where t: "map_of (teams st) m = Some t"
    "\<not> smallestFrozen (problemCount st) t \<le> CHR ''Z''" by auto
  with smallestFrozen_iff[OF pc, of t] show "\<not> teamHasFrozen st m"
    by (simp add: teamHasFrozen_def)
qed

lemma findTarget_no_crash:
  assumes "\<forall>m\<in>set (ranking st). map_of (teams st) m \<noteq> None"
  shows "\<exists>r. findTarget st = Inr r"
proof (cases "findTarget st")
  case (Inl e)
  then have "findFrozen (teams st) (problemCount st) (rev (ranking st)) = Inl e"
    by (simp add: findTarget_def)
  from findFrozen_Inl[OF this] assms show ?thesis by auto
next
  case (Inr r)
  then show ?thesis by simp
qed

text \<open>
  Claim C2. The search at the head of every iteration of the resolution loop, run on
  the scoreboard as it is at that moment (\<^const>\<open>scrollLoop\<close> calls \<^const>\<open>findTarget\<close> on
  the current state, after any repositioning of the previous iteration). For a contest
  of at most 26 problems, the letters A to Z, whose scoreboard names are all in the
  team table (as they are in every state the program reaches, \<open>reachable_wellFormed\<close>,
  and at every iteration of the loop, \<open>resolution_states\<close>, both below): the search
  does not fail; it finds nothing exactly when no team on the scoreboard has a contest
  problem with frozen submissions; and when it chooses team \<open>n\<close> and problem \<open>c\<close>, then
  \<open>n\<close> stands at a position \<open>i\<close> of the scoreboard such that no team at a later (lower
  ranked) position has a frozen contest problem, \<open>c\<close> is a contest problem of \<open>n\<close> with
  frozen submissions, and no frozen contest problem of \<open>n\<close> has a smaller letter.
\<close>

theorem findTarget_lowest_ranked_smallest_letter:
  assumes pc: "problemCount st \<le> 26"
    and present: "\<forall>m\<in>set (ranking st). map_of (teams st) m \<noteq> None"
  shows "(\<exists>r. findTarget st = Inr r) \<and>
         (findTarget st = Inr None \<longleftrightarrow> (\<forall>m\<in>set (ranking st). \<not> teamHasFrozen st m)) \<and>
         (\<forall>n c. findTarget st = Inr (Some (n, c)) \<longrightarrow>
            (\<exists>i team. i < length (ranking st) \<and> ranking st ! i = n \<and>
               map_of (teams st) n = Some team \<and> hasFrozen (problemCount st) team c \<and>
               (\<forall>c'. hasFrozen (problemCount st) team c' \<longrightarrow> c \<le> c') \<and>
               (\<forall>k. i < k \<and> k < length (ranking st) \<longrightarrow> \<not> teamHasFrozen st (ranking st ! k))))"
proof (intro conjI allI impI)
  show "\<exists>r. findTarget st = Inr r" by (rule findTarget_no_crash[OF present])
next
  show "findTarget st = Inr None \<longleftrightarrow> (\<forall>m\<in>set (ranking st). \<not> teamHasFrozen st m)"
  proof
    assume "findTarget st = Inr None"
    then show "\<forall>m\<in>set (ranking st). \<not> teamHasFrozen st m" by (rule findTarget_None[OF pc])
  next
    assume none: "\<forall>m\<in>set (ranking st). \<not> teamHasFrozen st m"
    from findTarget_no_crash[OF present] obtain r where r: "findTarget st = Inr r" ..
    show "findTarget st = Inr None"
    proof (cases r)
      case None
      with r show ?thesis by simp
    next
      case (Some p)
      obtain n c where p: "p = (n, c)" by (cases p)
      from findTarget_Some[OF pc] r Some p obtain i team where
        "i < length (ranking st)" "ranking st ! i = n" "map_of (teams st) n = Some team"
        "hasFrozen (problemCount st) team c" by blast
      then have "n \<in> set (ranking st)" "teamHasFrozen st n"
        by (auto simp: teamHasFrozen_def)
      with none show ?thesis by blast
    qed
  qed
next
  fix n c assume "findTarget st = Inr (Some (n, c))"
  then show "\<exists>i team. i < length (ranking st) \<and> ranking st ! i = n \<and>
               map_of (teams st) n = Some team \<and> hasFrozen (problemCount st) team c \<and>
               (\<forall>c'. hasFrozen (problemCount st) team c' \<longrightarrow> c \<le> c') \<and>
               (\<forall>k. i < k \<and> k < length (ranking st) \<longrightarrow> \<not> teamHasFrozen st (ranking st ! k))"
    by (rule findTarget_Some[OF pc])
qed

theorem findTarget_lowest_ranked_smallest_letter_witness:
  "problemCount scrollExample \<le> 26 \<and>
   set (ranking scrollExample) \<subseteq> fst ` set (teams scrollExample) \<and>
   findTarget scrollExample = Inr (Some (''b'', CHR ''B'')) \<and>
   (\<exists>i team. i < length (ranking scrollExample) \<and> ranking scrollExample ! i = ''b'' \<and>
       map_of (teams scrollExample) ''b'' = Some team \<and>
       hasFrozen (problemCount scrollExample) team CHR ''B'' \<and>
       (\<forall>c'. hasFrozen (problemCount scrollExample) team c' \<longrightarrow> CHR ''B'' \<le> c') \<and>
       (\<forall>k. i < k \<and> k < length (ranking scrollExample) \<longrightarrow>
            \<not> teamHasFrozen scrollExample (ranking scrollExample ! k)))"
proof -
  note t = findTarget_lowest_ranked_smallest_letter[OF ex_facts(1) ex_facts(2)]
  from t ex_target have "\<exists>i team. i < length (ranking scrollExample) \<and> ranking scrollExample ! i = ''b'' \<and>
       map_of (teams scrollExample) ''b'' = Some team \<and>
       hasFrozen (problemCount scrollExample) team CHR ''B'' \<and>
       (\<forall>c'. hasFrozen (problemCount scrollExample) team c' \<longrightarrow> CHR ''B'' \<le> c') \<and>
       (\<forall>k. i < k \<and> k < length (ranking scrollExample) \<longrightarrow>
            \<not> teamHasFrozen scrollExample (ranking scrollExample ! k))"
    by (elim conjE) (drule spec[of _ "''b''"], drule spec[of _ "CHR ''B''"], erule mp)
  moreover have "set (ranking scrollExample) \<subseteq> fst ` set (teams scrollExample)"
    by (simp add: scrollExample_def)
  ultimately show ?thesis using ex_facts(1) ex_target by (intro conjI)
qed

section \<open>One iteration of the resolution loop\<close>

lemma indexOf_Some:
  "indexOf xs x = Some i \<Longrightarrow> i < length xs \<and> xs ! i = x \<and> x \<notin> set (take i xs)"
proof (induction xs arbitrary: i)
  case Nil
  then show ?case by simp
next
  case (Cons y ys)
  show ?case
  proof (cases "y = x")
    case True
    with Cons.prems show ?thesis by simp
  next
    case False
    with Cons.prems obtain j where j: "indexOf ys x = Some j" "i = Suc j" by auto
    from Cons.IH[OF j(1)] j(2) False show ?thesis by simp
  qed
qed

lemma indexOf_None: "indexOf xs x = None \<longleftrightarrow> x \<notin> set xs"
  by (induction xs) auto

lemma indexOf_append_Cons: "x \<notin> set pre \<Longrightarrow> indexOf (pre @ x # post) x = Some (length pre)"
  by (induction pre) auto

lemma insert_at_facts:
  assumes notin: "n \<notin> set e" and de: "distinct e" and nl: "new \<le> length e"
  shows "set (take new e @ n # drop new e) = insert n (set e)"
    and "distinct (take new e @ n # drop new e)"
    and "remove1 n (take new e @ n # drop new e) = e"
    and "indexOf (take new e @ n # drop new e) n = Some new"
    and "new < length e \<Longrightarrow> (take new e @ n # drop new e) ! (new + 1) = e ! new"
proof -
  obtain pre post where e: "e = pre @ post" and pre: "pre = take new e" and post: "post = drop new e"
    by simp
  have l: "length pre = new" using pre nl by simp
  from notin e have n1: "n \<notin> set pre" and n2: "n \<notin> set post" by auto
  from de e have d: "distinct (pre @ post)" by simp
  have "set (pre @ n # post) = insert n (set (pre @ post))" by auto
  then show "set (take new e @ n # drop new e) = insert n (set e)"
    unfolding pre[symmetric] post[symmetric] e[symmetric] .
  have "distinct (pre @ n # post)" using d n1 n2 by auto
  then show "distinct (take new e @ n # drop new e)"
    unfolding pre[symmetric] post[symmetric] .
  have "remove1 n (pre @ n # post) = pre @ post" using n1 by (simp add: remove1_append)
  then show "remove1 n (take new e @ n # drop new e) = e"
    unfolding pre[symmetric] post[symmetric] e[symmetric] .
  have "indexOf (pre @ n # post) n = Some (length pre)" using n1 by (rule indexOf_append_Cons)
  then show "indexOf (take new e @ n # drop new e) n = Some new"
    unfolding pre[symmetric] post[symmetric] l .
  assume lt: "new < length e"
  then have pn: "post \<noteq> []" using e l by auto
  have "(pre @ n # post) ! (length pre + 1) = post ! 0"
    by (simp add: nth_append)
  also have "\<dots> = (pre @ post) ! (length pre + 0)" by (simp only: nth_append_length_plus)
  finally have "(pre @ n # post) ! (new + 1) = (pre @ post) ! new" using l by simp
  then show "(take new e @ n # drop new e) ! (new + 1) = e ! new"
    unfolding pre[symmetric] post[symmetric] e[symmetric] .
qed

lemma moveTo_facts:
  assumes old: "old < length rk" and at: "rk ! old = n" and d: "distinct rk" and le: "new \<le> old"
  shows "set (moveTo old new n rk) = set rk"
    and "distinct (moveTo old new n rk)"
    and "remove1 n (moveTo old new n rk) = remove1 n rk"
    and "indexOf (moveTo old new n rk) n = Some new"
    and "new < old \<Longrightarrow> moveTo old new n rk ! (new + 1) = rk ! new"
proof -
  define e where "e = take old rk @ drop (Suc old) rk"
  have rk: "rk = take old rk @ n # drop (Suc old) rk"
    using id_take_nth_drop[OF old] at by simp
  from d rk have "distinct (take old rk @ n # drop (Suc old) rk)" by simp
  then have notin: "n \<notin> set e" and de: "distinct e" by (auto simp: e_def)
  have len: "length e = length rk - 1" using old by (simp add: e_def)
  with le old have nl: "new \<le> length e" by simp
  have m: "moveTo old new n rk = take new e @ n # drop new e" by (simp add: moveTo_def e_def)
  have se: "insert n (set e) = set rk"
  proof -
    have "insert n (set e) = set (take old rk @ n # drop (Suc old) rk)" by (auto simp: e_def)
    then show ?thesis using rk by simp
  qed
  have re: "remove1 n rk = e"
  proof -
    have "n \<notin> set (take old rk)" using notin by (simp add: e_def)
    then have "remove1 n (take old rk @ n # drop (Suc old) rk) = e"
      by (simp add: remove1_append e_def)
    then show ?thesis using rk by simp
  qed
  note f = insert_at_facts[OF notin de nl]
  show "set (moveTo old new n rk) = set rk" using f(1) m se by simp
  show "distinct (moveTo old new n rk)" using f(2) m by simp
  show "remove1 n (moveTo old new n rk) = remove1 n rk" using f(3) m re by simp
  show "indexOf (moveTo old new n rk) n = Some new" using f(4) m by simp
  assume lt: "new < old"
  then have "new < length e" using len old by simp
  from f(5)[OF this] have "moveTo old new n rk ! (new + 1) = e ! new" using m by simp
  also have "\<dots> = rk ! new" using lt old by (simp add: e_def nth_append)
  finally show "moveTo old new n rk ! (new + 1) = rk ! new" .
qed

lemma scrollStep_unchanged:
  assumes "map_of (teams st) n = Some team" "\<not> snd (resolveFrozen (problems team c))"
  shows "scrollStep st n c = Inr (st\<lparr>teams := updateTeam n (resolvedTeam team c) (teams st)\<rparr>, [])"
proof -
  obtain ps' ch where r: "resolveFrozen (problems team c) = (ps', ch)"
    by (cases "resolveFrozen (problems team c)")
  with assms(2) have "ch = False" by simp
  with r assms(1) show ?thesis
    by (simp add: scrollStep_def resolvedTeam_def Let_def)
qed

lemma scrollStep_changed:
  assumes "map_of (teams st) n = Some team" "snd (resolveFrozen (problems team c))"
  shows "scrollStep st n c =
     (case bubble (updateTeam n (invalidateCache (resolvedTeam team c)) (teams st)) n (ranking st)
             (oldRankOf (ranking st) n) of
        Inl e \<Rightarrow> Inl e
      | Inr (new, ts2) \<Rightarrow>
          if new < oldRankOf (ranking st) n then
            Inr (st\<lparr>teams := updateTeam n (updateCache (invalidateCache (resolvedTeam team c))) ts2,
                    ranking := moveTo (oldRankOf (ranking st) n) new n (ranking st)\<rparr>,
                 [RankChange n (moveTo (oldRankOf (ranking st) n) new n (ranking st) ! (new + 1))
                    (solvedCountOf (resolvedTeam team c)) (penaltyOf (resolvedTeam team c))])
          else Inr (st\<lparr>teams := ts2\<rparr>, []))"
proof -
  obtain ps' ch where r: "resolveFrozen (problems team c) = (ps', ch)"
    by (cases "resolveFrozen (problems team c)")
  with assms(2) have ch: "ch = True" by simp
  have m: "cachedSolved (updateCache (invalidateCache t)) = solvedCountOf t"
    "cachedPenalty (updateCache (invalidateCache t)) = penaltyOf t" for t
    by (simp_all add: updateCache_def invalidateCache_def solvedCountOf_def penaltyOf_def
          solvedKeys_def)
  have rt: "resolvedTeam team c = team\<lparr>problems := (problems team)(c := ps')\<rparr>"
    using r by (simp add: resolvedTeam_def)
  from r ch assms(1) show ?thesis
    by (simp add: scrollStep_def rt oldRankOf_def[symmetric] Let_def m moveTo_def
          split: sum.split prod.split)
qed

lemma problems_cache [simp]:
  "problems (updateCache t) = problems t" "problems (invalidateCache t) = problems t"
  by (simp_all add: updateCache_def invalidateCache_def)

lemma metrics_problems:
  "problems t = problems u \<Longrightarrow> solvedCountOf t = solvedCountOf u \<and> penaltyOf t = penaltyOf u"
  by (simp add: solvedCountOf_def penaltyOf_def solvedKeys_def)

lemma updateTeam_present: "map_of (updateTeam n t ts) m = None \<longleftrightarrow> map_of ts m = None"
  by (simp add: map_of_updateTeam)

lemma refreshedFrom_problems:
  "refreshedFrom ts ts' \<Longrightarrow> map_of ts m = Some t \<Longrightarrow>
   \<exists>t'. map_of ts' m = Some t' \<and> problems t' = problems t \<and> (t' = t \<or> t' = updateCache t)"
  unfolding refreshedFrom_def by (auto dest!: spec[of _ m])

text \<open>
  Claim C4. One iteration of the loop for team \<open>n\<close>, at position \<open>old\<close> of a
  scoreboard of distinct names that are all in the team table (every state the program
  reaches has such a scoreboard, \<open>reachable_wellFormed\<close>, and so has every iteration of
  the loop, \<open>resolution_states\<close>, both below), when the replay makes
  problem \<open>c\<close> solved. The iteration does not fail and the resolution is applied. The
  team ends at a position \<open>new \<le> old\<close> and the other teams keep their order; the team
  compares better than every team it has passed and, unless it is first, does not
  compare better than the team at position \<open>new - 1\<close>. If the position changed
  (\<open>new < old\<close>) exactly one record is printed: the team, the team now at position
  \<open>new + 1\<close> (the one that stood at \<open>new\<close>), and the solved count and penalty computed
  from the team's problems after the resolution. If it did not change, nothing is
  printed and the scoreboard is the same.
\<close>

theorem scrollStep_moves_up_and_reports:
  assumes present: "\<forall>m\<in>set (ranking st). map_of (teams st) m \<noteq> None"
    and dist: "distinct (ranking st)"
    and old: "indexOf (ranking st) n = Some old"
    and team: "map_of (teams st) n = Some team"
    and solvedNow: "snd (resolveFrozen (problems team c))"
  shows "\<exists>st' out new team'.
     scrollStep st n c = Inr (st', out) \<and>
     map_of (teams st') n = Some team' \<and>
     problems team' = (problems team)(c := fst (resolveFrozen (problems team c))) \<and>
     indexOf (ranking st') n = Some new \<and> new \<le> old \<and>
     remove1 n (ranking st') = remove1 n (ranking st) \<and>
     (\<forall>j. new \<le> j \<and> j < old \<longrightarrow> better (teams st') n (ranking st ! j)) \<and>
     (new = 0 \<or> \<not> better (teams st') n (ranking st ! (new - 1))) \<and>
     (new < old \<longrightarrow>
        out = [RankChange n (ranking st' ! (new + 1)) (solvedCountOf team') (penaltyOf team')] \<and>
        ranking st' ! (new + 1) = ranking st ! new) \<and>
     (new = old \<longrightarrow> out = [] \<and> ranking st' = ranking st)"
proof -
  let ?rk = "ranking st"
  let ?rt = "resolvedTeam team c"
  let ?ts1 = "updateTeam n (invalidateCache ?rt) (teams st)"
  from indexOf_Some[OF old] have ol: "old < length ?rk" and at: "?rk ! old = n" by simp_all
  have orank: "oldRankOf ?rk n = old" using old by (simp add: oldRankOf_def)
  have n1: "map_of ?ts1 n = Some (invalidateCache ?rt)" using team by (simp add: map_of_updateTeam)
  have p1: "\<forall>j<old. map_of ?ts1 (?rk ! j) \<noteq> None"
  proof (intro allI impI)
    fix j assume "j < old"
    with ol have "?rk ! j \<in> set ?rk" by simp
    with present show "map_of ?ts1 (?rk ! j) \<noteq> None" by (simp add: updateTeam_present)
  qed
  from bubble_present[OF n1 p1] obtain new ts2 where
    b: "bubble ?ts1 n ?rk old = Inr (new, ts2)" and r: "refreshedFrom ?ts1 ts2" and le: "new \<le> old"
    and all: "\<forall>j. new \<le> j \<and> j < old \<longrightarrow> better ?ts1 n (?rk ! j)"
    and stop: "new = 0 \<or> \<not> better ?ts1 n (?rk ! (new - 1))"
    and upd: "0 < old \<longrightarrow> map_of ts2 n = Some (updateCache (invalidateCache ?rt))"
    by (elim exE conjE) (rule that)
  have prt: "problems ?rt = (problems team)(c := fst (resolveFrozen (problems team c)))"
    by (simp add: resolvedTeam_def)
  show ?thesis
  proof (cases "new < old")
    case True
    let ?t2 = "updateCache (invalidateCache ?rt)"
    let ?st' = "st\<lparr>teams := updateTeam n ?t2 ts2, ranking := moveTo old new n ?rk\<rparr>"
    let ?out = "[RankChange n (moveTo old new n ?rk ! (new + 1)) (solvedCountOf ?rt) (penaltyOf ?rt)]"
    have step: "scrollStep st n c = Inr (?st', ?out)"
      using scrollStep_changed[OF team solvedNow] b True by (simp add: orank)
    from True upd have n2: "map_of ts2 n = Some ?t2" by simp
    have "refreshedFrom ts2 (updateTeam n (updateCache ?t2) ts2)"
      using n2 by (rule refreshedFrom_updateTeam)
    then have r2: "refreshedFrom ts2 (updateTeam n ?t2 ts2)" by (simp add: updateCache_idem)
    have rr: "refreshedFrom ?ts1 (teams ?st')" using refreshedFrom_trans[OF r r2] by simp
    have tm: "map_of (teams ?st') n = Some ?t2" using n2 by (simp add: map_of_updateTeam)
    have pr: "problems ?t2 = (problems team)(c := fst (resolveFrozen (problems team c)))"
      using prt by simp
    note mv = moveTo_facts[OF ol at dist le]
    have ix: "indexOf (ranking ?st') n = Some new" using mv(4) by simp
    have rm: "remove1 n (ranking ?st') = remove1 n ?rk" using mv(3) by simp
    have cmp: "\<forall>j. new \<le> j \<and> j < old \<longrightarrow> better (teams ?st') n (?rk ! j)"
      using all better_refreshed[OF rr] by simp
    have stp: "new = 0 \<or> \<not> better (teams ?st') n (?rk ! (new - 1))"
      using stop better_refreshed[OF rr] by simp
    have mt: "solvedCountOf ?rt = solvedCountOf ?t2" "penaltyOf ?rt = penaltyOf ?t2"
      using metrics_problems[of ?rt ?t2] by simp_all
    have o: "new < old \<longrightarrow>
        ?out = [RankChange n (ranking ?st' ! (new + 1)) (solvedCountOf ?t2) (penaltyOf ?t2)] \<and>
        ranking ?st' ! (new + 1) = ?rk ! new"
      using mv(5) mt by simp
    have e: "new = old \<longrightarrow> ?out = [] \<and> ranking ?st' = ?rk" using True by simp
    show ?thesis
      by (intro exI[of _ ?st'] exI[of _ ?out] exI[of _ new] exI[of _ ?t2] conjI)
         (rule step tm pr ix le rm cmp stp o e)+
  next
    case False
    with le have eq: "new = old" by simp
    let ?st' = "st\<lparr>teams := ts2\<rparr>"
    have step: "scrollStep st n c = Inr (?st', [])"
      using scrollStep_changed[OF team solvedNow] b False by (simp add: orank)
    from refreshedFrom_problems[OF r n1] obtain t' where
      t': "map_of ts2 n = Some t'" "problems t' = problems (invalidateCache ?rt)" by blast
    have tm: "map_of (teams ?st') n = Some t'" using t' by simp
    have pr: "problems t' = (problems team)(c := fst (resolveFrozen (problems team c)))"
      using t' prt by simp
    have ix: "indexOf (ranking ?st') n = Some new" using old eq by simp
    have rm: "remove1 n (ranking ?st') = remove1 n ?rk" by simp
    have rr: "refreshedFrom ?ts1 (teams ?st')" using r by simp
    have cmp: "\<forall>j. new \<le> j \<and> j < old \<longrightarrow> better (teams ?st') n (?rk ! j)"
      using all better_refreshed[OF rr] by simp
    have stp: "new = 0 \<or> \<not> better (teams ?st') n (?rk ! (new - 1))"
      using stop better_refreshed[OF rr] by simp
    have o: "new < old \<longrightarrow>
        [] = [RankChange n (ranking ?st' ! (new + 1)) (solvedCountOf t') (penaltyOf t')] \<and>
        ranking ?st' ! (new + 1) = ?rk ! new"
      using eq by simp
    have e: "new = old \<longrightarrow> [] = ([]::outLine list) \<and> ranking ?st' = ?rk" by simp
    show ?thesis
      by (intro exI[of _ ?st'] exI[of _ "[]"] exI[of _ new] exI[of _ t'] conjI)
         (rule step tm pr ix le rm cmp stp o e)+
  qed
qed

theorem scrollStep_moves_up_and_reports_witness:
  "set (ranking scrollExample) \<subseteq> fst ` set (teams scrollExample) \<and>
   distinct (ranking scrollExample) \<and> indexOf (ranking scrollExample) ''b'' = Some 1 \<and>
   map_of (teams scrollExample) ''b'' = Some teamB \<and>
   snd (resolveFrozen (problems teamB CHR ''B'')) \<and>
   map_sum id snd (scrollStep scrollExample ''b'' CHR ''B'') = Inr [RankChange ''b'' ''a'' 1 5] \<and>
   (\<exists>st' out new team'.
     scrollStep scrollExample ''b'' CHR ''B'' = Inr (st', out) \<and>
     map_of (teams st') ''b'' = Some team' \<and>
     problems team' = (problems teamB)(CHR ''B'' := fst (resolveFrozen (problems teamB CHR ''B''))) \<and>
     indexOf (ranking st') ''b'' = Some new \<and> new \<le> 1 \<and>
     remove1 ''b'' (ranking st') = remove1 ''b'' (ranking scrollExample) \<and>
     (\<forall>j. new \<le> j \<and> j < 1 \<longrightarrow> better (teams st') ''b'' (ranking scrollExample ! j)) \<and>
     (new = 0 \<or> \<not> better (teams st') ''b'' (ranking scrollExample ! (new - 1))) \<and>
     (new < 1 \<longrightarrow>
        out = [RankChange ''b'' (ranking st' ! (new + 1)) (solvedCountOf team') (penaltyOf team')] \<and>
        ranking st' ! (new + 1) = ranking scrollExample ! new) \<and>
     (new = 1 \<longrightarrow> out = [] \<and> ranking st' = ranking scrollExample))"
proof -
  have "set (ranking scrollExample) \<subseteq> fst ` set (teams scrollExample)"
    by (simp add: scrollExample_def)
  with scrollStep_moves_up_and_reports[OF ex_facts(2) ex_facts(3) ex_facts(4) ex_facts(5) ex_changed]
    ex_facts(3-5) ex_changed ex_out show ?thesis by (intro conjI)
qed

section \<open>Termination of the resolution loop\<close>

lemma refreshedFrom_problemsOf: "refreshedFrom ts ts' \<Longrightarrow> problemsOf ts' m = problemsOf ts m"
  unfolding refreshedFrom_def problemsOf_def
  by (cases "map_of ts m") (auto dest!: spec[of _ m])

lemma bubble_Inr:
  "bubble ts n rk k = Inr (new, ts') \<Longrightarrow> refreshedFrom ts ts' \<and> new \<le> k"
proof (induction k arbitrary: ts)
  case 0
  then show ?case by (simp add: refreshedFrom_refl)
next
  case (Suc k)
  from Suc.prems obtain v ts1 where c: "compareTeams ts n (rk ! k) = Inr (v, ts1)"
    by (cases "compareTeams ts n (rk ! k)") auto
  from compareTeams_Inr[OF c] have r: "refreshedFrom ts ts1" by simp
  show ?case
  proof (cases v)
    case True
    with Suc.prems c have "bubble ts1 n rk k = Inr (new, ts')" by simp
    from Suc.IH[OF this] have "refreshedFrom ts1 ts'" "new \<le> k" by simp_all
    with refreshedFrom_trans[OF r] show ?thesis by simp
  next
    case False
    with Suc.prems c have "new = Suc k" "ts' = ts1" by simp_all
    with r show ?thesis by simp
  qed
qed

lemma set_moveTo:
  assumes "old < length rk" "rk ! old = n"
  shows "set (moveTo old new n rk) = set rk"
proof -
  define e where "e = take old rk @ drop (Suc old) rk"
  have rk: "rk = take old rk @ n # drop (Suc old) rk"
    using id_take_nth_drop[OF assms(1)] assms(2) by simp
  have g: "set (a @ n # b) = insert n (set (a @ b))" for a b :: "'a list" by auto
  have "set (take new e @ n # drop new e) = insert n (set (take new e @ drop new e))" by (rule g)
  also have "\<dots> = insert n (set e)" by (simp only: append_take_drop_id)
  also have "\<dots> = set (take old rk @ n # drop (Suc old) rk)" unfolding e_def by (rule g[symmetric])
  also have "\<dots> = set rk" using rk by simp
  finally show ?thesis by (simp add: moveTo_def e_def)
qed

lemma problemsOf_updateTeam:
  "problemsOf (updateTeam n t ts) m =
     (if m = n then map_option (\<lambda>_. problems t) (map_of ts n) else problemsOf ts m)"
  by (simp add: problemsOf_def map_of_updateTeam option.map_comp comp_def)

lemma scrollStep_effect:
  assumes s: "scrollStep st n c = Inr (st', out)"
  shows "\<exists>team. map_of (teams st) n = Some team \<and> stepEffect st n c team st'"
proof -
  from s obtain team where team: "map_of (teams st) n = Some team"
    by (cases "map_of (teams st) n") (auto simp: scrollStep_def)
  let ?rt = "resolvedTeam team c"
  have prt: "problems ?rt = (problems team)(c := fst (resolveFrozen (problems team c)))"
    by (simp add: resolvedTeam_def)
  have "stepEffect st n c team st'"
  proof (cases "snd (resolveFrozen (problems team c))")
    case False
    from scrollStep_unchanged[OF team False] s
    have st': "st' = st\<lparr>teams := updateTeam n ?rt (teams st)\<rparr>" by simp
    show ?thesis unfolding stepEffect_def st'
      using team prt by (simp add: keys_updateTeam problemsOf_updateTeam)
  next
    case True
    let ?ts1 = "updateTeam n (invalidateCache ?rt) (teams st)"
    let ?old = "oldRankOf (ranking st) n"
    note u = scrollStep_changed[OF team True]
    from s u obtain new ts2 where b: "bubble ?ts1 n (ranking st) ?old = Inr (new, ts2)"
      by (cases "bubble ?ts1 n (ranking st) ?old") auto
    from bubble_Inr[OF b] have r: "refreshedFrom ?ts1 ts2" and le: "new \<le> ?old" by simp_all
    have k1: "map fst ts2 = map fst (teams st)"
      using r by (simp add: refreshedFrom_def keys_updateTeam)
    have p1: "problemsOf ts2 m =
        (if m = n then Some ((problems team)(c := fst (resolveFrozen (problems team c))))
         else problemsOf (teams st) m)" for m
      using refreshedFrom_problemsOf[OF r, of m] team prt
      by (simp add: problemsOf_updateTeam)
    show ?thesis
    proof (cases "new < ?old")
      case False
      with s u b have st': "st' = st\<lparr>teams := ts2\<rparr>" by simp
      show ?thesis unfolding stepEffect_def st' using k1 p1 by simp
    next
      case lt: True
      let ?t2 = "updateCache (invalidateCache ?rt)"
      from s u b lt have st': "st' = st\<lparr>teams := updateTeam n ?t2 ts2,
          ranking := moveTo ?old new n (ranking st)\<rparr>" by simp
      from lt obtain i where i: "indexOf (ranking st) n = Some i"
        by (cases "indexOf (ranking st) n") (auto simp: oldRankOf_def)
      then have o: "?old = i" by (simp add: oldRankOf_def)
      from indexOf_Some[OF i] have "?old < length (ranking st)" "ranking st ! ?old = n"
        using o by simp_all
      then have sr: "set (moveTo ?old new n (ranking st)) = set (ranking st)" by (rule set_moveTo)
      have n2: "map_of ts2 n \<noteq> None"
        using refreshedFrom_present[OF r, of n] team by (simp add: map_of_updateTeam)
      have p2: "problemsOf (updateTeam n ?t2 ts2) m =
        (if m = n then Some ((problems team)(c := fst (resolveFrozen (problems team c))))
         else problemsOf (teams st) m)" for m
        using p1[of m] n2 prt by (auto simp: problemsOf_updateTeam)
      show ?thesis unfolding stepEffect_def st' using k1 p2 sr by (simp add: keys_updateTeam)
    qed
  qed
  with team show ?thesis by blast
qed

lemma frozenAt_problemsOf:
  "frozenAt st m c = (case problemsOf (teams st) m of None \<Rightarrow> False
                      | Some f \<Rightarrow> frozenSubmissions (f c) > 0)"
  by (simp add: frozenAt_def problemsOf_def split: option.splits)

lemma frozenAt_step:
  assumes e: "stepEffect st n c team st'" and t: "map_of (teams st) n = Some team"
  shows "frozenAt st' m c' = (frozenAt st m c' \<and> \<not> (m = n \<and> c' = c))"
proof -
  from e have p: "problemsOf (teams st') m =
            (if m = n then Some ((problems team)(c := fst (resolveFrozen (problems team c))))
             else problemsOf (teams st) m)"
    by (simp add: stepEffect_def)
  have pn: "problemsOf (teams st) n = Some (problems team)" using t by (simp add: problemsOf_def)
  show ?thesis
  proof (cases "m = n")
    case False
    with p show ?thesis by (simp add: frozenAt_problemsOf)
  next
    case True
    with p pn resolveFrozen_clears[of "problems team c"] show ?thesis
      by (simp add: frozenAt_problemsOf)
  qed
qed

lemma findTarget_pair:
  assumes "findTarget st = Inr (Some (n, c))"
  shows "n \<in> set (ranking st) \<and> c \<in> set (contestProblems (problemCount st)) \<and> frozenAt st n c"
proof -
  from assms have "findFrozen (teams st) (problemCount st) (rev (ranking st)) = Inr (Some (n, c))"
    by (simp add: findTarget_def)
  from findFrozen_Some[OF this] obtain pre post team where
    d: "rev (ranking st) = pre @ n # post" and t: "map_of (teams st) n = Some team"
    and c: "c = smallestFrozen (problemCount st) team" and z: "c \<le> CHR ''Z''"
    by (elim exE conjE) (rule that)
  from d have "n \<in> set (rev (ranking st))" by simp
  then have n: "n \<in> set (ranking st)" by simp
  from smallestFrozen_mem z c have "hasFrozen (problemCount st) team c" by simp
  with t n show ?thesis by (simp add: hasFrozen_def frozenAt_def)
qed

lemma step_decreases:
  assumes f: "findTarget st = Inr (Some (n, c))" and s: "scrollStep st n c = Inr (st', out)"
  shows "frozenPairs st' < frozenPairs st"
proof -
  from scrollStep_effect[OF s] obtain team where t: "map_of (teams st) n = Some team"
    and e: "stepEffect st n c team st'" by blast
  let ?U = "set (ranking st) \<times> set (contestProblems (problemCount st))"
  let ?P = "Set.filter (\<lambda>(m, c'). frozenAt st m c') ?U"
  let ?P' = "Set.filter (\<lambda>(m, c'). frozenAt st' m c') ?U"
  from e have u: "set (ranking st') \<times> set (contestProblems (problemCount st')) = ?U"
    by (simp add: stepEffect_def)
  have fin: "finite ?P" by simp
  from findTarget_pair[OF f] have mem: "(n, c) \<in> ?P" by simp
  have sub: "?P' \<subseteq> ?P - {(n, c)}"
    using frozenAt_step[OF e t] by auto
  then have "?P' \<subset> ?P" using mem by auto
  from psubset_card_mono[OF fin this] show ?thesis
    unfolding frozenPairs_def u .
qed

lemma within_terminates:
  "frozenPairs st \<le> k \<Longrightarrow> \<exists>r. scrollLoopWithin k st out = Some r"
proof (induction k arbitrary: st out)
  case 0
  show ?case
  proof (cases "findTarget st")
    case (Inl e)
    then show ?thesis by (simp add: scrollLoopWithin.simps)
  next
    case (Inr r)
    show ?thesis
    proof (cases r)
      case None
      with Inr show ?thesis by (simp add: scrollLoopWithin.simps)
    next
      case (Some p)
      obtain n c where p: "p = (n, c)" by (cases p)
      from findTarget_pair[of st n c] Inr Some p
      have "(n, c) \<in> Set.filter (\<lambda>(m, c'). frozenAt st m c')
               (set (ranking st) \<times> set (contestProblems (problemCount st)))" by simp
      then have "frozenPairs st > 0" unfolding frozenPairs_def
        by (metis card_gt_0_iff empty_iff finite_SigmaI finite_filter finite_set)
      with 0 show ?thesis by simp
    qed
  qed
next
  case (Suc k)
  show ?case
  proof (cases "findTarget st")
    case (Inl e)
    then show ?thesis by (simp add: scrollLoopWithin.simps)
  next
    case (Inr r)
    show ?thesis
    proof (cases r)
      case None
      with Inr show ?thesis by (simp add: scrollLoopWithin.simps)
    next
      case (Some p)
      obtain n c where p: "p = (n, c)" by (cases p)
      with Inr Some have f: "findTarget st = Inr (Some (n, c))" by simp
      show ?thesis
      proof (cases "scrollStep st n c")
        case (Inl e)
        with f show ?thesis by (simp add: scrollLoopWithin.simps)
      next
        case (Inr q)
        obtain st' out' where q: "q = (st', out')" by (cases q)
        with Inr have s: "scrollStep st n c = Inr (st', out')" by simp
        from step_decreases[OF f s] Suc.prems have "frozenPairs st' \<le> k" by simp
        from Suc.IH[OF this] obtain r' where "scrollLoopWithin k st' (out @ out') = Some r'" ..
        with f s show ?thesis by (simp add: scrollLoopWithin.simps)
      qed
    qed
  qed
qed

lemma within_implies_loop:
  "scrollLoopWithin k st out = Some r \<Longrightarrow> scrollLoop st out = Some r"
proof (induction k arbitrary: st out)
  case 0
  then show ?case
    by (subst scrollLoop.simps)
       (auto simp: scrollLoopWithin.simps split: sum.splits option.splits prod.splits)
next
  case (Suc k)
  show ?case
  proof (cases "findTarget st")
    case (Inl e)
    with Suc.prems show ?thesis
      by (subst scrollLoop.simps) (simp add: scrollLoopWithin.simps)
  next
    case (Inr r')
    show ?thesis
    proof (cases r')
      case None
      with Inr Suc.prems show ?thesis
        by (subst scrollLoop.simps) (simp add: scrollLoopWithin.simps)
    next
      case (Some p)
      obtain n c where p: "p = (n, c)" by (cases p)
      with Inr Some have f: "findTarget st = Inr (Some (n, c))" by simp
      show ?thesis
      proof (cases "scrollStep st n c")
        case (Inl e)
        with f Suc.prems have "r = Inl e" by (simp add: scrollLoopWithin.simps)
        with f Inl show ?thesis by (subst scrollLoop.simps) simp
      next
        case (Inr q)
        obtain st' out' where q: "q = (st', out')" by (cases q)
        with Inr have s: "scrollStep st n c = Inr (st', out')" by simp
        with f Suc.prems have "scrollLoopWithin k st' (out @ out') = Some r"
          by (simp add: scrollLoopWithin.simps)
        from Suc.IH[OF this] f s show ?thesis
          by (subst scrollLoop.simps) simp
      qed
    qed
  qed
qed

text \<open>
  Claim C10. From every state the resolution loop returns, and it does so within
  \<^const>\<open>frozenPairs\<close> resolutions: the loop cut off after that many resolutions gives
  the same result. Every iteration that finds a target and resolves it clears the
  frozen list and count of that problem and strictly decreases \<^const>\<open>frozenPairs\<close>.
\<close>

theorem scrollLoop_terminates:
  "(\<exists>r. scrollLoop st out = Some r \<and> scrollLoopWithin (frozenPairs st) st out = Some r) \<and>
   (\<forall>n c st' out'. findTarget st = Inr (Some (n, c)) \<and> scrollStep st n c = Inr (st', out') \<longrightarrow>
      frozenPairs st' < frozenPairs st \<and>
      map_option frozenSubs (problemAt n c st') = Some [] \<and>
      map_option frozenSubmissions (problemAt n c st') = Some 0)"
proof (intro conjI allI impI)
  from within_terminates[of st "frozenPairs st" out] obtain r where
    r: "scrollLoopWithin (frozenPairs st) st out = Some r" by auto
  from within_implies_loop[OF r] r
  show "\<exists>r. scrollLoop st out = Some r \<and> scrollLoopWithin (frozenPairs st) st out = Some r"
    by blast
next
  fix n c st' out'
  assume a: "findTarget st = Inr (Some (n, c)) \<and> scrollStep st n c = Inr (st', out')"
  then show "frozenPairs st' < frozenPairs st" using step_decreases by blast
  from a scrollStep_effect obtain team where t: "map_of (teams st) n = Some team"
    and e: "stepEffect st n c team st'" by blast
  from e have "problemsOf (teams st') n =
      Some ((problems team)(c := fst (resolveFrozen (problems team c))))"
    by (simp add: stepEffect_def)
  then have "problemAt n c st' = Some (fst (resolveFrozen (problems team c)))"
    by (auto simp: problemAt_def problemsOf_def)
  with resolveFrozen_clears[of "problems team c"]
  show "map_option frozenSubs (problemAt n c st') = Some []"
    and "map_option frozenSubmissions (problemAt n c st') = Some 0" by simp_all
qed

theorem scrollLoop_terminates_witness:
  "findTarget scrollExample = Inr (Some (''b'', CHR ''B'')) \<and>
   (\<exists>st' out'. scrollStep scrollExample ''b'' CHR ''B'' = Inr (st', out') \<and>
      frozenPairs st' < frozenPairs scrollExample \<and>
      map_option frozenSubs (problemAt ''b'' CHR ''B'' st') = Some [])"
proof -
  have "\<not> isl (scrollStep scrollExample ''b'' CHR ''B'')" by code_simp
  then obtain st' out' where s: "scrollStep scrollExample ''b'' CHR ''B'' = Inr (st', out')"
    by (cases "scrollStep scrollExample ''b'' CHR ''B''") auto
  from scrollLoop_terminates[of scrollExample "[]"] ex_target s
  have "frozenPairs st' < frozenPairs scrollExample \<and>
      map_option frozenSubs (problemAt ''b'' CHR ''B'' st') = Some []" by blast
  with s ex_target show ?thesis by blast
qed

section \<open>What a run keeps: solved problems\<close>

lemma within_rule:
  assumes "scrollLoopWithin k st out = Some (Inr (st', out'))" and "I st"
    and step: "\<And>s n c s' o'. I s \<Longrightarrow> findTarget s = Inr (Some (n, c)) \<Longrightarrow>
                 scrollStep s n c = Inr (s', o') \<Longrightarrow> I s'"
  shows "I st'"
  using assms(1,2)
proof (induction k arbitrary: st out)
  case 0
  then show ?case
    by (auto simp: scrollLoopWithin.simps split: sum.splits option.splits prod.splits)
next
  case (Suc k)
  show ?case
  proof (cases "findTarget st")
    case (Inl e)
    with Suc.prems show ?thesis by (simp add: scrollLoopWithin.simps)
  next
    case (Inr r)
    show ?thesis
    proof (cases r)
      case None
      with Inr Suc.prems show ?thesis by (simp add: scrollLoopWithin.simps)
    next
      case (Some p)
      obtain n c where p: "p = (n, c)" by (cases p)
      with Inr Some have f: "findTarget st = Inr (Some (n, c))" by simp
      show ?thesis
      proof (cases "scrollStep st n c")
        case (Inl e)
        with f Suc.prems show ?thesis by (simp add: scrollLoopWithin.simps)
      next
        case (Inr q)
        obtain s' o' where q: "q = (s', o')" by (cases q)
        with Inr have s: "scrollStep st n c = Inr (s', o')" by simp
        with f Suc.prems have w: "scrollLoopWithin k s' (out @ o') = Some (Inr (st', out'))"
          by (simp add: scrollLoopWithin.simps)
        from step[OF Suc.prems(2) f s] have "I s'" .
        from Suc.IH[OF w this] show ?thesis .
      qed
    qed
  qed
qed

lemma scrollLoop_rule:
  assumes l: "scrollLoop st out = Some (Inr (st', out'))" and i: "I st"
    and step: "\<And>s n c s' o'. I s \<Longrightarrow> findTarget s = Inr (Some (n, c)) \<Longrightarrow>
                 scrollStep s n c = Inr (s', o') \<Longrightarrow> I s'"
  shows "I st'"
proof -
  from within_terminates[of st "frozenPairs st" out] obtain r where
    r: "scrollLoopWithin (frozenPairs st) st out = Some r" by auto
  from within_implies_loop[OF r] l have "r = Inr (st', out')" by simp
  with r have "scrollLoopWithin (frozenPairs st) st out = Some (Inr (st', out'))" by simp
  from within_rule[of "frozenPairs st" st out st' out' I, OF this i step] show ?thesis .
qed

lemma problemAt_problemsOf: "problemAt m c st = map_option (\<lambda>f. f c) (problemsOf (teams st) m)"
  by (simp add: problemAt_def problemsOf_def option.map_comp comp_def)

lemma rankingFieldsKept_refl: "rankingFieldsKept st st"
  by (simp add: rankingFieldsKept_def)

lemma rankingFieldsKept_trans:
  assumes "rankingFieldsKept a b" "rankingFieldsKept b c"
  shows "rankingFieldsKept a c"
  unfolding rankingFieldsKept_def
proof (intro allI impI)
  fix m ch ps assume h: "problemAt m ch a = Some ps \<and> solved ps"
  with assms(1) obtain ps1 where 1: "problemAt m ch b = Some ps1" "solved ps1"
    "solveTime ps1 = solveTime ps" "wrongAttempts ps1 = wrongAttempts ps"
    unfolding rankingFieldsKept_def by blast
  with assms(2) obtain ps2 where 2: "problemAt m ch c = Some ps2" "solved ps2"
    "solveTime ps2 = solveTime ps1" "wrongAttempts ps2 = wrongAttempts ps1"
    unfolding rankingFieldsKept_def by blast
  with 1 show "\<exists>ps'. problemAt m ch c = Some ps' \<and> solved ps' \<and> solveTime ps' = solveTime ps \<and>
               wrongAttempts ps' = wrongAttempts ps" by simp
qed

lemma rankingFieldsKept_same_problems:
  "(\<And>m. problemsOf (teams st') m = problemsOf (teams st) m) \<Longrightarrow> rankingFieldsKept st st'"
  by (auto simp: rankingFieldsKept_def problemAt_problemsOf)

lemma resolveFrozen_solved:
  "solved ps \<Longrightarrow> solved (fst (resolveFrozen ps)) \<and> solveTime (fst (resolveFrozen ps)) = solveTime ps \<and>
     wrongAttempts (fst (resolveFrozen ps)) = wrongAttempts ps \<and> \<not> snd (resolveFrozen ps)"
  by (simp add: resolveFrozen_def replay_solved)

lemma scrollStep_keeps:
  assumes "scrollStep st n c = Inr (st', out)"
  shows "rankingFieldsKept st st'"
proof -
  from scrollStep_effect[OF assms] obtain team where t: "map_of (teams st) n = Some team"
    and e: "stepEffect st n c team st'" by blast
  show ?thesis unfolding rankingFieldsKept_def
  proof (intro allI impI)
    fix m ch ps assume h: "problemAt m ch st = Some ps \<and> solved ps"
    from e have p: "problemsOf (teams st') m =
            (if m = n then Some ((problems team)(c := fst (resolveFrozen (problems team c))))
             else problemsOf (teams st) m)" by (simp add: stepEffect_def)
    show "\<exists>ps'. problemAt m ch st' = Some ps' \<and> solved ps' \<and> solveTime ps' = solveTime ps \<and>
               wrongAttempts ps' = wrongAttempts ps"
    proof (cases "m = n \<and> ch = c")
      case True
      with h t have "ps = problems team c" by (simp add: problemAt_def)
      with h resolveFrozen_solved[of "problems team c"] p True show ?thesis
        by (simp add: problemAt_problemsOf)
    next
      case False
      with h t p show ?thesis by (auto simp: problemAt_problemsOf problemsOf_def)
    qed
  qed
qed

lemma printTeams_effect:
  "printTeams ns st = Inr (rows, st') \<Longrightarrow>
   \<exists>ts'. refreshedFrom (teams st) ts' \<and> st' = st\<lparr>teams := ts'\<rparr>"
proof (induction ns arbitrary: st rows)
  case Nil
  then have "refreshedFrom (teams st) (teams st) \<and> st' = st\<lparr>teams := teams st\<rparr>"
    by (simp add: refreshedFrom_refl)
  then show ?case by blast
next
  case (Cons n ns)
  from Cons.prems obtain team where t: "map_of (teams st) n = Some team"
    by (cases "map_of (teams st) n") auto
  let ?st1 = "st\<lparr>teams := updateTeam n (updateCache team) (teams st)\<rparr>"
  from Cons.prems t obtain rows1 where p: "printTeams ns ?st1 = Inr (rows1, st')"
    by (cases "printTeams ns ?st1") (auto simp: Let_def)
  from Cons.IH[OF p] obtain ts' where r: "refreshedFrom (teams ?st1) ts'"
    and s: "st' = ?st1\<lparr>teams := ts'\<rparr>" by blast
  from refreshedFrom_updateTeam[OF t] have "refreshedFrom (teams st) (teams ?st1)" by simp
  from refreshedFrom_trans[OF this r] have "refreshedFrom (teams st) ts'" .
  moreover from s have "st' = st\<lparr>teams := ts'\<rparr>" by simp
  ultimately show ?case by blast
qed

lemma map_of_refresh_all:
  "map_of (map (\<lambda>(k, t). (k, updateCache t)) ts) m = map_option updateCache (map_of ts m)"
  by (induction ts) auto

lemma flushScoreboard_effect:
  "\<exists>ts'. refreshedFrom (teams st) ts' \<and>
     flushScoreboard st = st\<lparr>teams := ts', ranking := map fst (sortBy teamBefore (teams st))\<rparr>"
proof (cases "length (teams st) < 2")
  case True
  then have "flushScoreboard st = st\<lparr>teams := teams st, ranking := map fst (sortBy teamBefore (teams st))\<rparr>"
    by (simp add: flushScoreboard_def)
  with refreshedFrom_refl[of "teams st"] show ?thesis by blast
next
  case False
  let ?ts = "map (\<lambda>(k, t). (k, updateCache t)) (teams st)"
  have "refreshedFrom (teams st) ?ts"
    by (auto simp: refreshedFrom_def map_of_refresh_all comp_def case_prod_beta)
  moreover from False have "flushScoreboard st = st\<lparr>teams := ?ts, ranking := map fst (sortBy teamBefore (teams st))\<rparr>"
    by (simp add: flushScoreboard_def)
  ultimately show ?thesis by blast
qed

lemma scroll_frozen_cases:
  assumes "frozen st" "scroll st = Some (Inr (st', out))"
  shows "\<exists>rows1 st1 st2 out2 rows2.
           printScoreboard (flushScoreboard st) = Inr (rows1, st1) \<and>
           scrollLoop st1 (Info ''Scroll scoreboard.'' # rows1) = Some (Inr (st2, out2)) \<and>
           printScoreboard (st2\<lparr>frozen := False\<rparr>) = Inr (rows2, st') \<and> out = out2 @ rows2"
proof -
  from assms obtain rows1 st1 where p1: "printScoreboard (flushScoreboard st) = Inr (rows1, st1)"
    by (cases "printScoreboard (flushScoreboard st)") (auto simp: scroll_def)
  with assms obtain st2 out2 where l: "scrollLoop st1 (Info ''Scroll scoreboard.'' # rows1) = Some (Inr (st2, out2))"
    by (cases "scrollLoop st1 (Info ''Scroll scoreboard.'' # rows1)")
       (auto simp: scroll_def split: sum.splits)
  with assms p1 obtain rows2 where p2: "printScoreboard (st2\<lparr>frozen := False\<rparr>) = Inr (rows2, st')"
    and o: "out = out2 @ rows2"
    by (cases "printScoreboard (st2\<lparr>frozen := False\<rparr>)") (auto simp: scroll_def)
  with p1 l show ?thesis by blast
qed

lemma refreshed_keeps:
  "refreshedFrom (teams st) (teams st') \<Longrightarrow> rankingFieldsKept st st'"
  by (rule rankingFieldsKept_same_problems) (rule refreshedFrom_problemsOf)

lemma scroll_keeps:
  assumes "scroll st = Some (Inr (st', out))"
  shows "rankingFieldsKept st st'"
proof (cases "frozen st")
  case False
  with assms show ?thesis by (simp add: scroll_def rankingFieldsKept_refl)
next
  case True
  from scroll_frozen_cases[OF True assms] obtain rows1 st1 st2 out2 rows2 where
    p1: "printScoreboard (flushScoreboard st) = Inr (rows1, st1)" and
    l: "scrollLoop st1 (Info ''Scroll scoreboard.'' # rows1) = Some (Inr (st2, out2))" and
    p2: "printScoreboard (st2\<lparr>frozen := False\<rparr>) = Inr (rows2, st')" by blast
  have a: "rankingFieldsKept st (flushScoreboard st)"
    using flushScoreboard_effect[of st] by (auto intro: refreshed_keeps)
  have b: "rankingFieldsKept (flushScoreboard st) st1"
    using printTeams_effect[OF p1[unfolded printScoreboard_def]] by (auto intro: refreshed_keeps)
  have c: "rankingFieldsKept st st1" by (rule rankingFieldsKept_trans[OF a b])
  have d: "rankingFieldsKept st st2"
  proof (rule scrollLoop_rule[where I = "rankingFieldsKept st", OF l c])
    fix s n ch s' o'
    assume "rankingFieldsKept st s" "scrollStep s n ch = Inr (s', o')"
    then show "rankingFieldsKept st s'"
      using scrollStep_keeps rankingFieldsKept_trans by blast
  qed
  have e: "rankingFieldsKept st2 (st2\<lparr>frozen := False\<rparr>)"
    by (rule rankingFieldsKept_same_problems) simp
  have f: "rankingFieldsKept (st2\<lparr>frozen := False\<rparr>) st'"
    using printTeams_effect[OF p2[unfolded printScoreboard_def]] by (auto intro: refreshed_keeps)
  from rankingFieldsKept_trans[OF d rankingFieldsKept_trans[OF e f]] show ?thesis .
qed

lemma submit_effect:
  assumes "submit pn n stat tm st = Inr st'"
  shows "\<exists>team ps'. map_of (teams st) n = Some team \<and>
     (\<forall>m. problemsOf (teams st') m =
        (if m = n then Some ((problems team)(firstChar pn := ps')) else problemsOf (teams st) m)) \<and>
     (solved (problems team (firstChar pn)) \<longrightarrow>
        ps' = (problems team (firstChar pn))\<lparr>submissions :=
                 submissions (problems team (firstChar pn)) @
                   [\<lparr>problem = pn, status = stat, time = tm\<rparr>]\<rparr>) \<and>
     (\<exists>ts'. st' = st\<lparr>teams := ts'\<rparr>) \<and> map fst (teams st') = map fst (teams st)"
proof -
  from assms obtain team where t: "map_of (teams st) n = Some team"
    by (cases "map_of (teams st) n") (auto simp: submit_def)
  let ?c = "firstChar pn"
  let ?ps = "problems team ?c"
  let ?sub = "\<lparr>problem = pn, status = stat, time = tm\<rparr>"
  let ?ps1 = "?ps\<lparr>submissions := submissions ?ps @ [?sub]\<rparr>"
  define ps' where "ps' =
     (if frozen st \<and> \<not> solved ?ps then
        ?ps1\<lparr>frozenSubmissions := frozenSubmissions ?ps1 + 1, frozenSubs := frozenSubs ?ps1 @ [?sub]\<rparr>
      else if \<not> solved ?ps then
        (if stat = ''Accepted'' then ?ps1\<lparr>solved := True, solveTime := tm\<rparr>
         else ?ps1\<lparr>wrongAttempts := wrongAttempts ?ps1 + 1\<rparr>)
      else ?ps1)"
  define team' where "team' =
     (if frozen st \<and> \<not> solved ?ps then team\<lparr>problems := (problems team)(?c := ps')\<rparr>
      else if \<not> solved ?ps then invalidateCache (team\<lparr>problems := (problems team)(?c := ps')\<rparr>)
      else team\<lparr>problems := (problems team)(?c := ps')\<rparr>)"
  have st': "st' = st\<lparr>teams := updateTeam n team' (teams st)\<rparr>"
  proof (cases "solved ?ps")
    case True
    with assms t show ?thesis by (simp add: submit_def Let_def team'_def ps'_def)
  next
    case False
    show ?thesis
    proof (cases "frozen st")
      case True
      with False assms t show ?thesis by (simp add: submit_def Let_def team'_def ps'_def)
    next
      case nf: False
      show ?thesis
      proof (cases "stat = ''Accepted''")
        case True
        with nf False assms t show ?thesis by (simp add: submit_def Let_def team'_def ps'_def)
      next
        case na: False
        with nf False assms t show ?thesis by (simp add: submit_def Let_def team'_def ps'_def)
      qed
    qed
  qed
  have pt: "problems team' = (problems team)(?c := ps')"
    by (simp add: team'_def)
  have 1: "\<forall>m. problemsOf (teams st') m =
        (if m = n then Some ((problems team)(?c := ps')) else problemsOf (teams st) m)"
    using t pt by (simp add: st' problemsOf_updateTeam)
  have 2: "solved ?ps \<longrightarrow> ps' = ?ps1" by (simp add: ps'_def)
  have 3: "\<exists>ts'. st' = st\<lparr>teams := ts'\<rparr>" using st' by blast
  have 4: "map fst (teams st') = map fst (teams st)" by (simp add: st' keys_updateTeam)
  show ?thesis
    by (intro exI[of _ team] exI[of _ ps'] conjI) (rule t 1 2 3 4)+
qed

lemma submit_keeps:
  assumes "submit pn n stat tm st = Inr st'"
  shows "rankingFieldsKept st st'"
proof -
  from submit_effect[OF assms] obtain team ps' where t: "map_of (teams st) n = Some team"
    and p: "\<forall>m. problemsOf (teams st') m =
        (if m = n then Some ((problems team)(firstChar pn := ps')) else problemsOf (teams st) m)"
    and s: "solved (problems team (firstChar pn)) \<longrightarrow>
        ps' = (problems team (firstChar pn))\<lparr>submissions :=
                 submissions (problems team (firstChar pn)) @
                   [\<lparr>problem = pn, status = stat, time = tm\<rparr>]\<rparr>"
    by (elim exE conjE) (rule that)
  show ?thesis unfolding rankingFieldsKept_def
  proof (intro allI impI)
    fix m ch ps assume h: "problemAt m ch st = Some ps \<and> solved ps"
    show "\<exists>ps'. problemAt m ch st' = Some ps' \<and> solved ps' \<and> solveTime ps' = solveTime ps \<and>
               wrongAttempts ps' = wrongAttempts ps"
    proof (cases "m = n \<and> ch = firstChar pn")
      case True
      with h t have "ps = problems team (firstChar pn)" by (simp add: problemAt_def)
      with h s p True show ?thesis by (simp add: problemAt_problemsOf)
    next
      case False
      with h t p show ?thesis by (auto simp: problemAt_problemsOf problemsOf_def)
    qed
  qed
qed

lemma map_of_insort_key:
  "map_of ts n = None \<Longrightarrow>
   map_of (insort_key fst (n, t) ts) m = (if m = n then Some t else map_of ts m)"
  by (induction ts) (auto split: if_splits)

lemma addTeam_keeps: "rankingFieldsKept st (fst (addTeam n st))"
proof (cases "started st \<or> map_of (teams st) n \<noteq> None")
  case True
  then show ?thesis by (auto simp: addTeam_def rankingFieldsKept_refl)
next
  case False
  then have st': "fst (addTeam n st) = st\<lparr>teams := insort_key fst (n, newTeam n) (teams st),
               ranking := sort (ranking st @ [n])\<rparr>" by (simp add: addTeam_def)
  from False have none: "map_of (teams st) n = None" by simp
  show ?thesis unfolding rankingFieldsKept_def st'
    using none by (auto simp: problemAt_def map_of_insort_key)
qed

lemma exec_keeps:
  assumes "exec cmd st = Some (Inr (st', out))" and "started st \<or> \<not> isStart cmd"
  shows "rankingFieldsKept st st' \<and> (started st \<longrightarrow> started st')"
proof (cases cmd)
  case (ADDTEAM n)
  with assms addTeam_keeps[of st n] show ?thesis
    by (auto simp: addTeam_def)
next
  case (START d pc)
  with assms show ?thesis by (auto simp: startCompetition_def rankingFieldsKept_refl)
next
  case (SUBMIT pn n stat tm)
  with assms obtain s where s: "submit pn n stat tm st = Inr s" "st' = s"
    by (cases "submit pn n stat tm st") auto
  from submit_effect[OF s(1)] obtain ts' where "s = st\<lparr>teams := ts'\<rparr>" by blast
  then have "started s = started st" by simp
  with submit_keeps[OF s(1)] s(2) show ?thesis by simp
next
  case FLUSH
  with assms have "st' = flushScoreboard st" by (simp add: flush_def)
  with flushScoreboard_effect[of st] show ?thesis
    by (auto intro: refreshed_keeps)
next
  case FREEZE
  with assms have "st' = st \<or> st' = st\<lparr>frozen := True\<rparr>" by (auto simp: freeze_def split: if_splits)
  then show ?thesis by (auto intro: rankingFieldsKept_same_problems simp: rankingFieldsKept_refl)
next
  case SCROLL
  with assms have s: "scroll st = Some (Inr (st', out))" by simp
  have "started st' = started st"
  proof (cases "frozen st")
    case False
    with s show ?thesis by (simp add: scroll_def)
  next
    case True
    from scroll_frozen_cases[OF True s] obtain rows1 st1 st2 out2 rows2 where
      p1: "printScoreboard (flushScoreboard st) = Inr (rows1, st1)" and
      l: "scrollLoop st1 (Info ''Scroll scoreboard.'' # rows1) = Some (Inr (st2, out2))" and
      p2: "printScoreboard (st2\<lparr>frozen := False\<rparr>) = Inr (rows2, st')" by blast
    from printTeams_effect[OF p1[unfolded printScoreboard_def]]
    obtain ts1 where "st1 = (flushScoreboard st)\<lparr>teams := ts1\<rparr>" by blast
    then have a: "started st1 = started st" by (simp add: flushScoreboard_def)
    have b: "started st2 = started st"
    proof (rule scrollLoop_rule[where I = "\<lambda>s. started s = started st", OF l a])
      fix s n ch s' o'
      assume "started s = started st" "scrollStep s n ch = Inr (s', o')"
      then show "started s' = started st"
        using scrollStep_effect[of s n ch s' o'] by (auto simp: stepEffect_def)
    qed
    from printTeams_effect[OF p2[unfolded printScoreboard_def]]
    obtain ts3 where "st' = (st2\<lparr>frozen := False\<rparr>)\<lparr>teams := ts3\<rparr>" by blast
    then have "started st' = started st2" by simp
    with b show ?thesis by simp
  qed
  with scroll_keeps[OF s] show ?thesis by simp
next
  case (QUERY_RANKING n)
  with assms show ?thesis by (auto simp: rankingFieldsKept_refl)
next
  case (QUERY_SUBMISSION n p s)
  with assms show ?thesis by (auto simp: rankingFieldsKept_refl)
next
  case END
  with assms show ?thesis by (auto simp: rankingFieldsKept_refl)
qed

lemma run_keeps:
  assumes "run cmds st = Some (Inr (st', out))" and "started st \<or> (\<forall>c\<in>set cmds. \<not> isStart c)"
  shows "rankingFieldsKept st st'"
  using assms
proof (induction cmds arbitrary: st out)
  case Nil
  then show ?case by (simp add: rankingFieldsKept_refl)
next
  case (Cons cmd cmds)
  from Cons.prems(1) obtain s1 o1 where e: "exec cmd st = Some (Inr (s1, o1))"
    by (cases "exec cmd st") (auto split: sum.splits)
  from Cons.prems(2) have "started st \<or> \<not> isStart cmd" by auto
  from exec_keeps[OF e this] have k: "rankingFieldsKept st s1" and st: "started st \<longrightarrow> started s1"
    by simp_all
  show ?case
  proof (cases "cmd = END")
    case True
    with Cons.prems(1) e have "st' = s1" by simp
    with k show ?thesis by simp
  next
    case False
    with Cons.prems(1) e obtain o2 where r: "run cmds s1 = Some (Inr (st', o2))"
      by (cases "run cmds s1") (auto split: sum.splits)
    from Cons.prems(2) st have "started s1 \<or> (\<forall>c\<in>set cmds. \<not> isStart c)" by auto
    from Cons.IH[OF r this] k show ?thesis by (rule rankingFieldsKept_trans[rotated])
  qed
qed

text \<open>
  Claim C8. Take any run that does not reset the problems (the contest has started
  already, or the run contains no \<^verbatim>\<open>START\<close>), whatever submissions it records, frozen
  or not, and whatever scrolls replay them. A problem that is solved before the run is
  solved after it, with the same solve time and the same number of wrong attempts.
  And a submission to a solved problem changes nothing of the problem but the list of
  recorded submissions, to which it is appended.
\<close>

theorem solved_problem_is_final:
  "(\<forall>cmds st st' out m c ps.
      run cmds st = Some (Inr (st', out)) \<and> (started st \<or> (\<forall>k\<in>set cmds. \<not> isStart k)) \<and>
      problemAt m c st = Some ps \<and> solved ps \<longrightarrow>
      (\<exists>ps'. problemAt m c st' = Some ps' \<and> solved ps' \<and> solveTime ps' = solveTime ps \<and>
             wrongAttempts ps' = wrongAttempts ps)) \<and>
   (\<forall>pn n stat tm st st' ps.
      submit pn n stat tm st = Inr st' \<and> problemAt n (firstChar pn) st = Some ps \<and> solved ps \<longrightarrow>
      problemAt n (firstChar pn) st' =
        Some (ps\<lparr>submissions := submissions ps @ [\<lparr>problem = pn, status = stat, time = tm\<rparr>]\<rparr>))"
proof (intro conjI allI impI)
  fix cmds st st' out m c ps
  assume h: "run cmds st = Some (Inr (st', out)) \<and> (started st \<or> (\<forall>k\<in>set cmds. \<not> isStart k)) \<and>
      problemAt m c st = Some ps \<and> solved ps"
  then have "rankingFieldsKept st st'" using run_keeps by blast
  with h show "\<exists>ps'. problemAt m c st' = Some ps' \<and> solved ps' \<and> solveTime ps' = solveTime ps \<and>
             wrongAttempts ps' = wrongAttempts ps"
    unfolding rankingFieldsKept_def by blast
next
  fix pn n stat tm st st' ps
  assume h: "submit pn n stat tm st = Inr st' \<and> problemAt n (firstChar pn) st = Some ps \<and> solved ps"
  then have s: "submit pn n stat tm st = Inr st'" by simp
  from submit_effect[OF s] obtain team ps' where t: "map_of (teams st) n = Some team"
    and p: "\<forall>m. problemsOf (teams st') m =
        (if m = n then Some ((problems team)(firstChar pn := ps')) else problemsOf (teams st) m)"
    and e: "solved (problems team (firstChar pn)) \<longrightarrow>
        ps' = (problems team (firstChar pn))\<lparr>submissions :=
                 submissions (problems team (firstChar pn)) @
                   [\<lparr>problem = pn, status = stat, time = tm\<rparr>]\<rparr>"
    by (elim exE conjE) (rule that)
  from h t have "ps = problems team (firstChar pn)" by (simp add: problemAt_def)
  with h e p show "problemAt n (firstChar pn) st' =
        Some (ps\<lparr>submissions := submissions ps @ [\<lparr>problem = pn, status = stat, time = tm\<rparr>]\<rparr>)"
    by (simp add: problemAt_problemsOf)
qed

theorem solved_problem_is_final_witness:
  "started solvedSystem \<and>
   map_option solved (problemAt ''a'' CHR ''A'' solvedSystem) = Some True \<and>
   (\<exists>st' out ps'. run laterSubmissions solvedSystem = Some (Inr (st', out)) \<and>
      problemAt ''a'' CHR ''A'' st' = Some ps' \<and> solved ps' \<and> solveTime ps' = 5 \<and>
      wrongAttempts ps' = 1)"
proof -
  have st: "started solvedSystem" by (simp add: solvedSystem_def)
  have "\<exists>ps. problemAt ''a'' CHR ''A'' solvedSystem = Some ps \<and> solved ps \<and> solveTime ps = 5 \<and>
      wrongAttempts ps = 1"
    by (simp add: solvedSystem_def problemAt_def newProblemStatus_def)
  then obtain ps where ps: "problemAt ''a'' CHR ''A'' solvedSystem = Some ps" "solved ps"
    "solveTime ps = 5" "wrongAttempts ps = 1" by blast
  have "finalState (run laterSubmissions solvedSystem) \<noteq> None" by code_simp
  then obtain st' out where r: "run laterSubmissions solvedSystem = Some (Inr (st', out))"
    by (auto simp: finalState_def split: option.splits sum.splits)
  from solved_problem_is_final r st ps(1,2) have "\<exists>ps'. problemAt ''a'' CHR ''A'' st' = Some ps' \<and> solved ps' \<and>
      solveTime ps' = solveTime ps \<and> wrongAttempts ps' = wrongAttempts ps" by blast
  with r st ps show ?thesis by auto
qed

section \<open>What a run keeps: the caches and the scoreboard\<close>

lemma fresh_read:
  "fresh t \<Longrightarrow> getSolvedCount t = solvedCountOf t \<and> getPenaltyTime t = penaltyOf t"
  by (auto simp: fresh_def getSolvedCount_def getPenaltyTime_def updateCache_def
        solvedCountOf_def penaltyOf_def)

lemma fresh_updateCache: "fresh t \<Longrightarrow> fresh (updateCache t)"
  by (auto simp: fresh_def updateCache_def solvedCountOf_def penaltyOf_def solvedKeys_def)

lemma fresh_invalidateCache: "fresh (invalidateCache t)"
  by (simp add: fresh_def invalidateCache_def)

lemma coherent_invalidateCache: "coherent (invalidateCache t)"
  by (simp add: coherent_def invalidateCache_def)

lemma fresh_sameRanking:
  assumes f: "fresh t" and s: "sameRanking (problems t) g"
  shows "fresh (t\<lparr>problems := g\<rparr>)"
proof -
  let ?u = "t\<lparr>problems := g\<rparr>"
  from s have k: "solvedKeys ?u = solvedKeys t"
    by (simp add: solvedKeys_def sameRanking_def)
  have m1: "map (\<lambda>c. solveTime (g c)) (solvedKeys t) = map (\<lambda>c. solveTime (problems t c)) (solvedKeys t)"
    using s by (intro map_cong) (auto simp: solvedKeys_def sameRanking_def)
  have m2: "map (\<lambda>c. solveTime (g c) + 20 * wrongAttempts (g c)) (solvedKeys t) =
            map (\<lambda>c. solveTime (problems t c) + 20 * wrongAttempts (problems t c)) (solvedKeys t)"
    using s by (intro map_cong) (auto simp: solvedKeys_def sameRanking_def)
  from f show ?thesis
    by (simp add: fresh_def solvedCountOf_def penaltyOf_def k m1 m2)
qed

lemma coherent_problems: "coherent t \<Longrightarrow> coherent (t\<lparr>problems := g\<rparr>)"
  by (simp add: coherent_def)

lemma allTeams_refreshed:
  assumes upd: "\<And>t. P t \<Longrightarrow> P (updateCache t)"
    and a: "\<forall>n t. map_of ts n = Some t \<longrightarrow> P t" and r: "refreshedFrom ts ts'"
  shows "\<forall>n t. map_of ts' n = Some t \<longrightarrow> P t"
proof (intro allI impI)
  fix n t assume t: "map_of ts' n = Some t"
  from r have "map_of ts' n = map_of ts n \<or> map_of ts' n = map_option updateCache (map_of ts n)"
    by (simp add: refreshedFrom_def)
  with t a upd show "P t" by (cases "map_of ts n") auto
qed

lemma allTeams_updateTeam:
  assumes a: "\<forall>n t. map_of ts n = Some t \<longrightarrow> P t" and p: "P u"
  shows "\<forall>m t. map_of (updateTeam n u ts) m = Some t \<longrightarrow> P t"
  using a p by (auto simp: map_of_updateTeam split: if_splits)

lemma resolve_not_changed:
  assumes "\<not> snd (resolveFrozen ps)"
  shows "solved (fst (resolveFrozen ps)) = solved ps \<and>
         (solved ps \<longrightarrow> solveTime (fst (resolveFrozen ps)) = solveTime ps \<and>
            wrongAttempts (fst (resolveFrozen ps)) = wrongAttempts ps)"
proof (cases "solved ps")
  case True
  then show ?thesis using resolveFrozen_solved by simp
next
  case False
  show ?thesis
  proof (cases "\<forall>s\<in>set (frozenSubs ps). status s \<noteq> ''Accepted''")
    case True
    with False show ?thesis by (simp add: resolveFrozen_def replay_no_accept)
  next
    case na: False
    then obtain pre a post where d: "frozenSubs ps = pre @ a # post"
      "\<forall>s\<in>set pre. status s \<noteq> ''Accepted''" "status a = ''Accepted''"
      using split_list_first_prop[of "frozenSubs ps" "\<lambda>s. status s = ''Accepted''"] by auto
    with False have "snd (resolveFrozen ps)"
      by (simp add: resolveFrozen_def replay_first_accept)
    with assms show ?thesis by simp
  qed
qed

lemma scrollStep_allTeams:
  assumes upd: "\<And>t. P t \<Longrightarrow> P (updateCache t)"
    and inv: "\<And>t. P (invalidateCache t)"
    and res: "\<And>t c. P t \<Longrightarrow> \<not> snd (resolveFrozen (problems t c)) \<Longrightarrow> P (resolvedTeam t c)"
    and a: "allTeams P st" and s: "scrollStep st n c = Inr (st', out)"
  shows "allTeams P st'"
proof -
  from s obtain team where team: "map_of (teams st) n = Some team"
    by (cases "map_of (teams st) n") (auto simp: scrollStep_def)
  from a team have pt: "P team" by (simp add: allTeams_def)
  from a have a': "\<forall>n t. map_of (teams st) n = Some t \<longrightarrow> P t" by (simp add: allTeams_def)
  let ?rt = "resolvedTeam team c"
  show ?thesis
  proof (cases "snd (resolveFrozen (problems team c))")
    case False
    from scrollStep_unchanged[OF team False] s
    have st': "st' = st\<lparr>teams := updateTeam n ?rt (teams st)\<rparr>" by simp
    from allTeams_updateTeam[OF a' res[OF pt False]] show ?thesis
      by (simp add: allTeams_def st')
  next
    case True
    let ?ts1 = "updateTeam n (invalidateCache ?rt) (teams st)"
    let ?old = "oldRankOf (ranking st) n"
    note u = scrollStep_changed[OF team True]
    from s u obtain new ts2 where b: "bubble ?ts1 n (ranking st) ?old = Inr (new, ts2)"
      by (cases "bubble ?ts1 n (ranking st) ?old") auto
    from bubble_Inr[OF b] have r: "refreshedFrom ?ts1 ts2" by simp
    have a1: "\<forall>m t. map_of ?ts1 m = Some t \<longrightarrow> P t"
      by (rule allTeams_updateTeam[OF a' inv])
    have a2: "\<forall>m t. map_of ts2 m = Some t \<longrightarrow> P t"
      by (rule allTeams_refreshed[OF upd a1 r])
    show ?thesis
    proof (cases "new < ?old")
      case False
      with s u b have st': "st' = st\<lparr>teams := ts2\<rparr>" by simp
      with a2 show ?thesis by (simp add: allTeams_def)
    next
      case lt: True
      let ?t2 = "updateCache (invalidateCache ?rt)"
      from s u b lt have st': "st' = st\<lparr>teams := updateTeam n ?t2 ts2,
          ranking := moveTo ?old new n (ranking st)\<rparr>" by simp
      have "P ?t2" by (rule upd[OF inv])
      from allTeams_updateTeam[OF a2 this] show ?thesis by (simp add: allTeams_def st')
    qed
  qed
qed

lemma fresh_resolved:
  "fresh t \<Longrightarrow> \<not> snd (resolveFrozen (problems t c)) \<Longrightarrow> fresh (resolvedTeam t c)"
  unfolding resolvedTeam_def
  by (rule fresh_sameRanking) (auto simp: sameRanking_def dest: resolve_not_changed)

lemma coherent_resolved: "coherent t \<Longrightarrow> coherent (resolvedTeam t c)"
  unfolding resolvedTeam_def by (rule coherent_problems)

lemma scrollStep_fresh:
  "allTeams fresh st \<Longrightarrow> scrollStep st n c = Inr (st', out) \<Longrightarrow> allTeams fresh st'"
  by (rule scrollStep_allTeams[of fresh, OF fresh_updateCache fresh_invalidateCache fresh_resolved])

lemma scrollStep_coherent:
  "allTeams coherent st \<Longrightarrow> scrollStep st n c = Inr (st', out) \<Longrightarrow> allTeams coherent st'"
  by (rule scrollStep_allTeams[of coherent, OF coherent_updateCache coherent_invalidateCache
        coherent_resolved])

lemma set_insertBy: "set (insertBy lt x xs) = insert x (set xs)"
  by (induction xs) auto

lemma set_sortBy: "set (sortBy lt xs) = set xs"
  by (induction xs) (auto simp: sortBy_def set_insertBy)

lemma distinct_map_insertBy:
  "distinct (map f (insertBy lt x xs)) = (f x \<notin> f ` set xs \<and> distinct (map f xs))"
  by (induction xs) (auto simp: set_insertBy)

lemma distinct_map_sortBy: "distinct (map f (sortBy lt xs)) = distinct (map f xs)"
proof (induction xs)
  case Nil
  then show ?case by (simp add: sortBy_def)
next
  case (Cons x xs)
  have "sortBy lt (x # xs) = insertBy lt x (sortBy lt xs)" by (simp add: sortBy_def)
  with Cons show ?case by (simp add: distinct_map_insertBy set_sortBy)
qed

lemma keys_insort_key:
  "map fst (insort_key fst (n, t) ts) = insort n (map fst ts)"
  by (induction ts) auto

lemma boardConsistent_teams:
  "boardConsistent st \<Longrightarrow> map fst ts' = map fst (teams st) \<Longrightarrow> boardConsistent (st\<lparr>teams := ts'\<rparr>)"
  by (simp add: boardConsistent_def)

lemma flushScoreboard_consistent:
  "distinct (map fst (teams st)) \<Longrightarrow> boardConsistent (flushScoreboard st)"
proof -
  assume d: "distinct (map fst (teams st))"
  from flushScoreboard_effect[of st] obtain ts' where r: "refreshedFrom (teams st) ts'"
    and f: "flushScoreboard st = st\<lparr>teams := ts', ranking := map fst (sortBy teamBefore (teams st))\<rparr>"
    by blast
  from r have k: "map fst ts' = map fst (teams st)" by (simp add: refreshedFrom_def)
  show ?thesis unfolding f boardConsistent_def
    using d k by (simp add: distinct_map_sortBy set_sortBy)
qed

lemma printTeams_consistent:
  "printTeams ns st = Inr (rows, st') \<Longrightarrow> boardConsistent st \<Longrightarrow> boardConsistent st'"
proof -
  assume p: "printTeams ns st = Inr (rows, st')" and b: "boardConsistent st"
  from printTeams_effect[OF p] obtain ts' where r: "refreshedFrom (teams st) ts'"
    and s: "st' = st\<lparr>teams := ts'\<rparr>" by blast
  from r have "map fst ts' = map fst (teams st)" by (simp add: refreshedFrom_def)
  from boardConsistent_teams[OF b this] s show ?thesis by simp
qed

lemma scrollStep_consistent:
  assumes s: "scrollStep st n c = Inr (st', out)" and b: "boardConsistent st"
  shows "boardConsistent st'"
proof -
  from scrollStep_effect[OF s] obtain team where team: "map_of (teams st) n = Some team"
    and e: "stepEffect st n c team st'" by blast
  from e have k: "map fst (teams st') = map fst (teams st)" and sr: "set (ranking st') = set (ranking st)"
    by (simp_all add: stepEffect_def)
  have d: "distinct (ranking st')"
  proof (cases "snd (resolveFrozen (problems team c))")
    case False
    from scrollStep_unchanged[OF team False] s have "ranking st' = ranking st" by auto
    with b show ?thesis by (simp add: boardConsistent_def)
  next
    case True
    let ?ts1 = "updateTeam n (invalidateCache (resolvedTeam team c)) (teams st)"
    let ?old = "oldRankOf (ranking st) n"
    note u = scrollStep_changed[OF team True]
    from s u obtain new ts2 where bb: "bubble ?ts1 n (ranking st) ?old = Inr (new, ts2)"
      by (cases "bubble ?ts1 n (ranking st) ?old") auto
    from bubble_Inr[OF bb] have le: "new \<le> ?old" by simp
    show ?thesis
    proof (cases "new < ?old")
      case False
      with s u bb have "ranking st' = ranking st" by auto
      with b show ?thesis by (simp add: boardConsistent_def)
    next
      case lt: True
      from s u bb lt have rk: "ranking st' = moveTo ?old new n (ranking st)" by auto
      from lt obtain i where i: "indexOf (ranking st) n = Some i"
        by (cases "indexOf (ranking st) n") (auto simp: oldRankOf_def)
      then have o: "?old = i" by (simp add: oldRankOf_def)
      from indexOf_Some[OF i] have ol: "?old < length (ranking st)" and at: "ranking st ! ?old = n"
        using o by simp_all
      from b have dr: "distinct (ranking st)" by (simp add: boardConsistent_def)
      from moveTo_facts(2)[OF ol at dr le] rk show ?thesis by simp
    qed
  qed
  from b k sr d show ?thesis by (simp add: boardConsistent_def)
qed

lemma scroll_consistent:
  assumes s: "scroll st = Some (Inr (st', out))" and b: "boardConsistent st"
  shows "boardConsistent st'"
proof (cases "frozen st")
  case False
  with s b show ?thesis by (simp add: scroll_def)
next
  case True
  from scroll_frozen_cases[OF True s] obtain rows1 st1 st2 out2 rows2 where
    p1: "printScoreboard (flushScoreboard st) = Inr (rows1, st1)" and
    l: "scrollLoop st1 (Info ''Scroll scoreboard.'' # rows1) = Some (Inr (st2, out2))" and
    p2: "printScoreboard (st2\<lparr>frozen := False\<rparr>) = Inr (rows2, st')" by blast
  from b have "distinct (map fst (teams st))" by (simp add: boardConsistent_def)
  then have "boardConsistent (flushScoreboard st)" by (rule flushScoreboard_consistent)
  from printTeams_consistent[OF p1[unfolded printScoreboard_def] this] have b1: "boardConsistent st1" .
  have b2: "boardConsistent st2"
    by (rule scrollLoop_rule[where I = boardConsistent, OF l b1]) (rule scrollStep_consistent)
  then have "boardConsistent (st2\<lparr>frozen := False\<rparr>)" by (simp add: boardConsistent_def)
  from printTeams_consistent[OF p2[unfolded printScoreboard_def] this] show ?thesis .
qed

lemma addTeam_consistent: "boardConsistent st \<Longrightarrow> boardConsistent (fst (addTeam n st))"
proof (cases "started st \<or> map_of (teams st) n \<noteq> None")
  case True
  assume "boardConsistent st"
  with True show ?thesis by (auto simp: addTeam_def)
next
  case False
  assume b: "boardConsistent st"
  from False have "map_of (teams st) n = None" by simp
  then have nk: "n \<notin> set (map fst (teams st))" by (simp add: map_of_eq_None_iff)
  from False have st': "fst (addTeam n st) = st\<lparr>teams := insort_key fst (n, newTeam n) (teams st),
               ranking := sort (ranking st @ [n])\<rparr>" by (simp add: addTeam_def)
  show ?thesis unfolding st' boardConsistent_def
    using b nk by (simp add: keys_insort_key distinct_insort set_insort_key boardConsistent_def)
qed

lemma startCompetition_keys:
  "map fst (teams (fst (startCompetition d pc st))) = map fst (teams st) \<and>
   ranking (fst (startCompetition d pc st)) = ranking st"
  by (auto simp: startCompetition_def comp_def case_prod_beta)

lemma exec_consistent:
  assumes e: "exec cmd st = Some (Inr (st', out))" and b: "boardConsistent st"
  shows "boardConsistent st'"
proof (cases cmd)
  case (ADDTEAM n)
  with e addTeam_consistent[OF b, of n] show ?thesis by auto
next
  case (START d pc)
  with e have "st' = fst (startCompetition d pc st)" by auto
  with startCompetition_keys[of d pc st] b show ?thesis by (simp add: boardConsistent_def)
next
  case (SUBMIT pn n stat tm)
  with e obtain s where s: "submit pn n stat tm st = Inr s" "st' = s"
    by (cases "submit pn n stat tm st") auto
  from submit_effect[OF s(1)] obtain ts' where "s = st\<lparr>teams := ts'\<rparr>"
    and "map fst (teams s) = map fst (teams st)" by blast
  with b s(2) show ?thesis by (simp add: boardConsistent_def)
next
  case FLUSH
  with e have "st' = flushScoreboard st" by (simp add: flush_def)
  moreover from b have "distinct (map fst (teams st))" by (simp add: boardConsistent_def)
  ultimately show ?thesis using flushScoreboard_consistent by simp
next
  case FREEZE
  with e have "st' = st \<or> st' = st\<lparr>frozen := True\<rparr>" by (auto simp: freeze_def split: if_splits)
  moreover from b have "boardConsistent (st\<lparr>frozen := True\<rparr>)" by (simp add: boardConsistent_def)
  ultimately show ?thesis using b by blast
next
  case SCROLL
  with e scroll_consistent[OF _ b] show ?thesis by simp
next
  case (QUERY_RANKING n)
  with e b show ?thesis by auto
next
  case (QUERY_SUBMISSION n p s)
  with e b show ?thesis by auto
next
  case END
  with e b show ?thesis by auto
qed

lemma cacheInvariant_fresh: "cacheInvariant fresh"
  unfolding cacheInvariant_def
proof (intro conjI allI impI)
  fix t assume "fresh t" then show "fresh (updateCache t)" by (rule fresh_updateCache)
next
  fix t show "fresh (invalidateCache t)" by (rule fresh_invalidateCache)
next
  fix t g assume "fresh t \<and> sameRanking (problems t) g"
  then show "fresh (t\<lparr>problems := g\<rparr>)" using fresh_sameRanking by blast
next
  fix n show "fresh (newTeam n)" by (simp add: fresh_def newTeam_def)
qed

lemma cacheInvariant_coherent: "cacheInvariant coherent"
  unfolding cacheInvariant_def
proof (intro conjI allI impI)
  fix t assume "coherent t" then show "coherent (updateCache t)" by (rule coherent_updateCache)
next
  fix t show "coherent (invalidateCache t)" by (rule coherent_invalidateCache)
next
  fix t g assume "coherent t \<and> sameRanking (problems t) g"
  then show "coherent (t\<lparr>problems := g\<rparr>)" using coherent_problems by blast
next
  fix n show "coherent (newTeam n)" by (simp add: coherent_def newTeam_def)
qed

lemma submit_team_cases:
  assumes "submit pn n stat tm st = Inr st'"
  shows "\<exists>team team'. map_of (teams st) n = Some team \<and>
           st' = st\<lparr>teams := updateTeam n team' (teams st)\<rparr> \<and>
           ((\<exists>g. team' = team\<lparr>problems := g\<rparr> \<and> sameRanking (problems team) g) \<or>
            (\<exists>u. team' = invalidateCache u))"
proof -
  from assms obtain team where t: "map_of (teams st) n = Some team"
    by (cases "map_of (teams st) n") (auto simp: submit_def)
  let ?c = "firstChar pn"
  let ?ps = "problems team ?c"
  show ?thesis
  proof (cases "solved ?ps")
    case True
    let ?g = "(problems team)(?c := ?ps\<lparr>submissions := submissions ?ps @
                 [\<lparr>problem = pn, status = stat, time = tm\<rparr>]\<rparr>)"
    from True assms t have "st' = st\<lparr>teams := updateTeam n (team\<lparr>problems := ?g\<rparr>) (teams st)\<rparr>"
      by (simp add: submit_def Let_def)
    moreover have "sameRanking (problems team) ?g" by (simp add: sameRanking_def)
    ultimately show ?thesis using t by blast
  next
    case False
    show ?thesis
    proof (cases "frozen st")
      case True
      let ?g = "(problems team)(?c := ?ps\<lparr>submissions := submissions ?ps @
                 [\<lparr>problem = pn, status = stat, time = tm\<rparr>],
                 frozenSubmissions := frozenSubmissions ?ps + 1,
                 frozenSubs := frozenSubs ?ps @ [\<lparr>problem = pn, status = stat, time = tm\<rparr>]\<rparr>)"
      from True False assms t
      have "st' = st\<lparr>teams := updateTeam n (team\<lparr>problems := ?g\<rparr>) (teams st)\<rparr>"
        by (simp add: submit_def Let_def)
      moreover have "sameRanking (problems team) ?g" by (simp add: sameRanking_def)
      ultimately show ?thesis using t by blast
    next
      case nf: False
      from nf False assms t have "\<exists>u. st' = st\<lparr>teams := updateTeam n (invalidateCache u) (teams st)\<rparr>"
        by (cases "stat = ''Accepted''") (auto simp: submit_def Let_def)
      then show ?thesis using t by blast
    qed
  qed
qed

lemma submit_allTeams:
  assumes c: "cacheInvariant P" and a: "allTeams P st" and s: "submit pn n stat tm st = Inr st'"
  shows "allTeams P st'"
proof -
  from submit_team_cases[OF s] obtain team team' where t: "map_of (teams st) n = Some team"
    and st': "st' = st\<lparr>teams := updateTeam n team' (teams st)\<rparr>"
    and cs: "(\<exists>g. team' = team\<lparr>problems := g\<rparr> \<and> sameRanking (problems team) g) \<or>
            (\<exists>u. team' = invalidateCache u)" by blast
  from a t have "P team" by (simp add: allTeams_def)
  with cs c have "P team'" unfolding cacheInvariant_def by blast
  with a show ?thesis unfolding st' allTeams_def
    by (auto simp: map_of_updateTeam split: if_splits)
qed

lemma refreshed_allTeams:
  assumes c: "cacheInvariant P" and a: "allTeams P st" and r: "refreshedFrom (teams st) ts'"
  shows "allTeams P (st\<lparr>teams := ts'\<rparr>)"
proof -
  from c have upd: "\<And>t. P t \<Longrightarrow> P (updateCache t)" by (simp add: cacheInvariant_def)
  from a have a': "\<forall>n t. map_of (teams st) n = Some t \<longrightarrow> P t" by (simp add: allTeams_def)
  from allTeams_refreshed[of P, OF upd a' r] show ?thesis by (simp add: allTeams_def)
qed

lemma printTeams_allTeams:
  assumes c: "cacheInvariant P" and a: "allTeams P st" and p: "printTeams ns st = Inr (rows, st')"
  shows "allTeams P st'"
proof -
  from printTeams_effect[OF p] obtain ts' where r: "refreshedFrom (teams st) ts'"
    and s: "st' = st\<lparr>teams := ts'\<rparr>" by blast
  from refreshed_allTeams[OF c a r] s show ?thesis by simp
qed

lemma flushScoreboard_allTeams:
  assumes c: "cacheInvariant P" and a: "allTeams P st"
  shows "allTeams P (flushScoreboard st)"
proof -
  from flushScoreboard_effect[of st] obtain ts' where r: "refreshedFrom (teams st) ts'"
    and f: "flushScoreboard st = st\<lparr>teams := ts', ranking := map fst (sortBy teamBefore (teams st))\<rparr>"
    by blast
  from refreshed_allTeams[OF c a r] show ?thesis by (simp add: f allTeams_def)
qed

lemma scrollStep_allTeams':
  assumes c: "cacheInvariant P" and a: "allTeams P st" and s: "scrollStep st n ch = Inr (st', out)"
  shows "allTeams P st'"
proof (rule scrollStep_allTeams[of P, OF _ _ _ a s])
  fix t assume "P t" then show "P (updateCache t)" using c by (simp add: cacheInvariant_def)
next
  fix t show "P (invalidateCache t)" using c by (simp add: cacheInvariant_def)
next
  fix t c' assume p: "P t" and n: "\<not> snd (resolveFrozen (problems t c'))"
  have "sameRanking (problems t) ((problems t)(c' := fst (resolveFrozen (problems t c'))))"
    using resolve_not_changed[OF n] by (simp add: sameRanking_def)
  with p c show "P (resolvedTeam t c')" unfolding cacheInvariant_def resolvedTeam_def by blast
qed

lemma scroll_allTeams:
  assumes c: "cacheInvariant P" and a: "allTeams P st" and s: "scroll st = Some (Inr (st', out))"
  shows "allTeams P st'"
proof (cases "frozen st")
  case False
  with s a show ?thesis by (simp add: scroll_def)
next
  case True
  from scroll_frozen_cases[OF True s] obtain rows1 st1 st2 out2 rows2 where
    p1: "printScoreboard (flushScoreboard st) = Inr (rows1, st1)" and
    l: "scrollLoop st1 (Info ''Scroll scoreboard.'' # rows1) = Some (Inr (st2, out2))" and
    p2: "printScoreboard (st2\<lparr>frozen := False\<rparr>) = Inr (rows2, st')" by blast
  note a0 = flushScoreboard_allTeams[OF c a]
  note a1 = printTeams_allTeams[OF c a0 p1[unfolded printScoreboard_def]]
  have a2: "allTeams P st2"
    by (rule scrollLoop_rule[where I = "allTeams P", OF l a1]) (rule scrollStep_allTeams'[OF c])
  then have "allTeams P (st2\<lparr>frozen := False\<rparr>)" by (simp add: allTeams_def)
  from printTeams_allTeams[OF c this p2[unfolded printScoreboard_def]] show ?thesis .
qed

lemma addTeam_allTeams:
  assumes c: "cacheInvariant P" and a: "allTeams P st"
  shows "allTeams P (fst (addTeam n st))"
proof (cases "started st \<or> map_of (teams st) n \<noteq> None")
  case True
  with a show ?thesis by (auto simp: addTeam_def)
next
  case False
  then have none: "map_of (teams st) n = None" by simp
  from False have st': "fst (addTeam n st) = st\<lparr>teams := insort_key fst (n, newTeam n) (teams st),
               ranking := sort (ranking st @ [n])\<rparr>" by (simp add: addTeam_def)
  from c have "P (newTeam n)" by (simp add: cacheInvariant_def)
  with a show ?thesis unfolding st' allTeams_def
    by (auto simp: map_of_insort_key[OF none] split: if_splits)
qed

lemma exec_allTeams:
  assumes c: "cacheInvariant P" and a: "allTeams P st"
    and e: "exec cmd st = Some (Inr (st', out))" and ns: "started st \<or> \<not> isStart cmd"
  shows "allTeams P st'"
proof (cases cmd)
  case (ADDTEAM n)
  with e addTeam_allTeams[OF c a, of n] show ?thesis by auto
next
  case (START d pc)
  with e ns a show ?thesis by (auto simp: startCompetition_def)
next
  case (SUBMIT pn n stat tm)
  with e obtain s where s: "submit pn n stat tm st = Inr s" "st' = s"
    by (cases "submit pn n stat tm st") auto
  with submit_allTeams[OF c a s(1)] show ?thesis by simp
next
  case FLUSH
  with e have "st' = flushScoreboard st" by (simp add: flush_def)
  with flushScoreboard_allTeams[OF c a] show ?thesis by simp
next
  case FREEZE
  with e have "st' = st \<or> st' = st\<lparr>frozen := True\<rparr>" by (auto simp: freeze_def split: if_splits)
  moreover from a have "allTeams P (st\<lparr>frozen := True\<rparr>)" by (simp add: allTeams_def)
  ultimately show ?thesis using a by blast
next
  case SCROLL
  with e scroll_allTeams[OF c a] show ?thesis by simp
next
  case (QUERY_RANKING n)
  with e a show ?thesis by auto
next
  case (QUERY_SUBMISSION n p s)
  with e a show ?thesis by auto
next
  case END
  with e a show ?thesis by auto
qed

lemma start_coherent:
  "allTeams coherent st \<Longrightarrow> allTeams coherent (fst (startCompetition d pc st))"
proof (cases "started st")
  case True
  assume "allTeams coherent st"
  with True show ?thesis by (simp add: startCompetition_def)
next
  case False
  assume a: "allTeams coherent st"
  have m: "map_of (map (\<lambda>(k, t). (k, f t)) ts) n = map_option f (map_of ts n)" for f :: "Team \<Rightarrow> Team" and ts n
    by (induction ts) auto
  from False a show ?thesis
    by (auto simp: startCompetition_def allTeams_def m coherent_def)
qed

lemma exec_wellFormed:
  assumes e: "exec cmd st = Some (Inr (st', out))" and w: "wellFormed st"
  shows "wellFormed st'"
proof -
  from w have b: "boardConsistent st" and a: "allTeams coherent st" by (simp_all add: wellFormed_def)
  have "allTeams coherent st'"
  proof (cases "started st \<or> \<not> isStart cmd")
    case True
    from exec_allTeams[OF cacheInvariant_coherent a e True] show ?thesis .
  next
    case False
    then obtain d pc where "cmd = START d pc" by (cases cmd) auto
    with e have "st' = fst (startCompetition d pc st)" by auto
    with start_coherent[OF a] show ?thesis by simp
  qed
  with exec_consistent[OF e b] show ?thesis by (simp add: wellFormed_def)
qed

lemma run_wellFormed:
  "run cmds st = Some (Inr (st', out)) \<Longrightarrow> wellFormed st \<Longrightarrow> wellFormed st'"
proof (induction cmds arbitrary: st out)
  case Nil
  then show ?case by simp
next
  case (Cons cmd cmds)
  from Cons.prems(1) obtain s1 o1 where e: "exec cmd st = Some (Inr (s1, o1))"
    by (cases "exec cmd st") (auto split: sum.splits)
  from exec_wellFormed[OF e Cons.prems(2)] have w1: "wellFormed s1" .
  show ?case
  proof (cases "cmd = END")
    case True
    with Cons.prems(1) e have "st' = s1" by simp
    with w1 show ?thesis by simp
  next
    case False
    with Cons.prems(1) e obtain o2 where r: "run cmds s1 = Some (Inr (st', o2))"
      by (cases "run cmds s1") (auto split: sum.splits)
    from Cons.IH[OF r w1] show ?thesis .
  qed
qed

lemma initial_wellFormed: "wellFormed initialSystem"
  by (simp add: wellFormed_def boardConsistent_def allTeams_def initialSystem_def)

lemma reachable_wellFormed:
  assumes "run cmds initialSystem = Some (Inr (st, out))"
  shows "distinct (ranking st) \<and> (\<forall>m\<in>set (ranking st). map_of (teams st) m \<noteq> None) \<and>
         (\<forall>n t. map_of (teams st) n = Some t \<longrightarrow> coherent t)"
proof -
  from run_wellFormed[OF assms initial_wellFormed] have w: "wellFormed st" .
  then have "set (ranking st) = fst ` set (teams st)"
    by (simp add: wellFormed_def boardConsistent_def)
  then have "\<forall>m\<in>set (ranking st). map_of (teams st) m \<noteq> None"
    by (simp add: map_of_eq_None_iff)
  with w show ?thesis by (simp add: wellFormed_def boardConsistent_def allTeams_def)
qed

lemma scroll_returns: "\<exists>r. scroll st = Some r"
proof (cases "frozen st")
  case False
  then show ?thesis by (simp add: scroll_def)
next
  case True
  show ?thesis
  proof (cases "printScoreboard (flushScoreboard st)")
    case (Inl e)
    with True show ?thesis by (simp add: scroll_def)
  next
    case (Inr p)
    obtain rows1 st1 where p: "p = (rows1, st1)" by (cases p)
    from within_terminates[of st1 "frozenPairs st1" "Info ''Scroll scoreboard.'' # rows1"]
    obtain r where "scrollLoopWithin (frozenPairs st1) st1 (Info ''Scroll scoreboard.'' # rows1) = Some r"
      by auto
    from within_implies_loop[OF this]
    have r: "scrollLoop st1 (Info ''Scroll scoreboard.'' # rows1) = Some r" .
    with True Inr p show ?thesis
      by (cases r) (auto simp: scroll_def split: sum.splits prod.splits)
  qed
qed

lemma exec_returns: "\<exists>r. exec cmd st = Some r"
  by (cases cmd) (auto simp: scroll_returns split: sum.splits)

lemma run_returns: "\<exists>r. run cmds st = Some r"
proof (induction cmds arbitrary: st)
  case Nil
  then show ?case by simp
next
  case (Cons cmd cmds)
  from exec_returns[of cmd st] obtain r where r: "exec cmd st = Some r" ..
  show ?case
  proof (cases r)
    case (Inl e)
    with r show ?thesis by simp
  next
    case (Inr p)
    obtain s1 o1 where p: "p = (s1, o1)" by (cases p)
    from Cons.IH[of s1] obtain r' where "run cmds s1 = Some r'" ..
    with r Inr p show ?thesis by (cases r') (auto split: prod.splits)
  qed
qed

text \<open>
  Claim C6 against the code. \<^verbatim>\<open>startCompetition\<close> overwrites the problem statuses of
  every team and, unlike \<^verbatim>\<open>submit\<close> and \<^verbatim>\<open>scroll\<close>, does not invalidate the caches.
  In the run \<^const>\<open>staleCacheRun\<close> team \<open>a\<close> solves a problem before the start, a scroll
  prints the scoreboard and so validates the cache, and the start then resets the
  problem: the team has no solved problem left, yet the ranking reads one solved
  problem and penalty 5 from the cache. (For runs in which no submission precedes the
  start the caches are never stale: \<open>reachable_fresh\<close> below.)
\<close>

theorem start_after_solve_leaves_stale_cache:
  "map_option getSolvedCount (Option.bind (finalState (run staleCacheRun initialSystem)) (teamAt ''a'')) = Some 1 \<and>
   map_option getPenaltyTime (Option.bind (finalState (run staleCacheRun initialSystem)) (teamAt ''a'')) = Some 5 \<and>
   map_option solvedCountOf (Option.bind (finalState (run staleCacheRun initialSystem)) (teamAt ''a'')) = Some 0 \<and>
   map_option penaltyOf (Option.bind (finalState (run staleCacheRun initialSystem)) (teamAt ''a'')) = Some 0"
  by code_simp

lemma run_fresh_started:
  "run cmds st = Some (Inr (st', out)) \<Longrightarrow> started st \<Longrightarrow> allTeams fresh st \<Longrightarrow>
   allTeams fresh st' \<and> started st'"
proof (induction cmds arbitrary: st out)
  case Nil
  then show ?case by simp
next
  case (Cons cmd cmds)
  from Cons.prems(1) obtain s1 o1 where e: "exec cmd st = Some (Inr (s1, o1))"
    by (cases "exec cmd st") (auto split: sum.splits)
  from Cons.prems(2) have ns: "started st \<or> \<not> isStart cmd" by simp
  from exec_allTeams[OF cacheInvariant_fresh Cons.prems(3) e ns] have f1: "allTeams fresh s1" .
  from exec_keeps[OF e ns] Cons.prems(2) have s1: "started s1" by simp
  show ?case
  proof (cases "cmd = END")
    case True
    with Cons.prems(1) e have "st' = s1" by simp
    with f1 s1 show ?thesis by simp
  next
    case False
    with Cons.prems(1) e obtain o2 where r: "run cmds s1 = Some (Inr (st', o2))"
      by (cases "run cmds s1") (auto split: sum.splits)
    from Cons.IH[OF r s1 f1] show ?thesis .
  qed
qed

lemma resolve_new: "resolveFrozen newProblemStatus = (newProblemStatus, False)"
  by (simp add: resolveFrozen_def newProblemStatus_def)

lemma pristine_refreshed:
  "pristine st \<Longrightarrow> refreshedFrom (teams st) ts' \<Longrightarrow> pristine (st\<lparr>teams := ts'\<rparr>)"
  unfolding pristine_def
proof (intro allI impI)
  fix n t
  assume p: "\<forall>n t. map_of (teams st) n = Some t \<longrightarrow> problems t = (\<lambda>c. newProblemStatus)"
    and r: "refreshedFrom (teams st) ts'" and t: "map_of (teams (st\<lparr>teams := ts'\<rparr>)) n = Some t"
  from r have "map_of ts' n = map_of (teams st) n \<or> map_of ts' n = map_option updateCache (map_of (teams st) n)"
    by (simp add: refreshedFrom_def)
  with t p show "problems t = (\<lambda>c. newProblemStatus)"
    by (cases "map_of (teams st) n") auto
qed

lemma scrollStep_pristine:
  assumes s: "scrollStep st n c = Inr (st', out)" and p: "pristine st"
  shows "pristine st'"
proof -
  from scrollStep_effect[OF s] obtain team where t: "map_of (teams st) n = Some team"
    and e: "stepEffect st n c team st'" by blast
  from p t have pt: "problems team = (\<lambda>c. newProblemStatus)" by (simp add: pristine_def)
  have same: "(problems team)(c := fst (resolveFrozen (problems team c))) = problems team"
    by (simp add: pt resolve_new fun_upd_idem)
  show ?thesis unfolding pristine_def
  proof (intro allI impI)
    fix m u assume u: "map_of (teams st') m = Some u"
    from e have "problemsOf (teams st') m =
            (if m = n then Some ((problems team)(c := fst (resolveFrozen (problems team c))))
             else problemsOf (teams st) m)" by (simp add: stepEffect_def)
    with same t have "problemsOf (teams st') m = problemsOf (teams st) m"
      by (simp add: problemsOf_def)
    with u obtain u0 where "map_of (teams st) m = Some u0" "problems u0 = problems u"
      by (cases "map_of (teams st) m") (auto simp: problemsOf_def)
    with p show "problems u = (\<lambda>c. newProblemStatus)" by (auto simp: pristine_def)
  qed
qed

lemma printTeams_pristine:
  "printTeams ns st = Inr (rows, st') \<Longrightarrow> pristine st \<Longrightarrow> pristine st'"
  using printTeams_effect pristine_refreshed by blast

lemma flushScoreboard_pristine: "pristine st \<Longrightarrow> pristine (flushScoreboard st)"
proof -
  assume p: "pristine st"
  from flushScoreboard_effect[of st] obtain ts' where r: "refreshedFrom (teams st) ts'"
    and f: "flushScoreboard st = st\<lparr>teams := ts', ranking := map fst (sortBy teamBefore (teams st))\<rparr>"
    by blast
  from pristine_refreshed[OF p r] show ?thesis by (simp add: f pristine_def)
qed

lemma scroll_pristine:
  assumes s: "scroll st = Some (Inr (st', out))" and p: "pristine st"
  shows "pristine st'"
proof (cases "frozen st")
  case False
  with s p show ?thesis by (simp add: scroll_def)
next
  case True
  from scroll_frozen_cases[OF True s] obtain rows1 st1 st2 out2 rows2 where
    p1: "printScoreboard (flushScoreboard st) = Inr (rows1, st1)" and
    l: "scrollLoop st1 (Info ''Scroll scoreboard.'' # rows1) = Some (Inr (st2, out2))" and
    p2: "printScoreboard (st2\<lparr>frozen := False\<rparr>) = Inr (rows2, st')" by blast
  note a0 = flushScoreboard_pristine[OF p]
  note a1 = printTeams_pristine[OF p1[unfolded printScoreboard_def] a0]
  have a2: "pristine st2"
    by (rule scrollLoop_rule[where I = pristine, OF l a1]) (rule scrollStep_pristine)
  then have "pristine (st2\<lparr>frozen := False\<rparr>)" by (simp add: pristine_def)
  from printTeams_pristine[OF p2[unfolded printScoreboard_def] this] show ?thesis .
qed

lemma reset_pristine:
  "foldl (\<lambda>f prob. f(prob := newProblemStatus)) (\<lambda>c. newProblemStatus) cs = (\<lambda>c. newProblemStatus)"
  by (induction cs) (simp_all add: fun_upd_idem)

lemma start_pristine_fresh:
  assumes p: "pristine st" and f: "allTeams fresh st"
  shows "allTeams fresh (fst (startCompetition d pc st))"
proof (cases "started st")
  case True
  with f show ?thesis by (simp add: startCompetition_def)
next
  case False
  have m: "map_of (map (\<lambda>(k, t). (k, g t)) ts) n = map_option g (map_of ts n)"
    for g :: "Team \<Rightarrow> Team" and ts n
    by (induction ts) auto
  show ?thesis unfolding allTeams_def
  proof (intro allI impI)
    fix n t assume t: "map_of (teams (fst (startCompetition d pc st))) n = Some t"
    with False obtain t0 where t0: "map_of (teams st) n = Some t0"
      and tt: "t = t0\<lparr>problems := foldl (\<lambda>f prob. f(prob := newProblemStatus)) (problems t0)
                                (contestProblems pc)\<rparr>"
      by (auto simp: startCompetition_def m)
    from p t0 have "problems t0 = (\<lambda>c. newProblemStatus)" by (simp add: pristine_def)
    with tt have "t = t0" by (simp add: reset_pristine)
    with f t0 show "fresh t" by (simp add: allTeams_def)
  qed
qed

lemma addTeam_pristine: "pristine st \<Longrightarrow> pristine (fst (addTeam n st))"
proof (cases "started st \<or> map_of (teams st) n \<noteq> None")
  case True
  assume "pristine st"
  with True show ?thesis by (auto simp: addTeam_def)
next
  case False
  assume p: "pristine st"
  from False have none: "map_of (teams st) n = None" by simp
  from False have st': "fst (addTeam n st) = st\<lparr>teams := insort_key fst (n, newTeam n) (teams st),
               ranking := sort (ranking st @ [n])\<rparr>" by (simp add: addTeam_def)
  from p show ?thesis unfolding st' pristine_def
    by (auto simp: map_of_insort_key[OF none] newTeam_def split: if_splits)
qed

lemma exec_fresh_before_start:
  assumes e: "exec cmd st = Some (Inr (st', out))" and ns: "\<not> started st" and nsub: "\<not> isSubmit cmd"
    and p: "pristine st" and f: "allTeams fresh st"
  shows "allTeams fresh st' \<and> (\<not> started st' \<longrightarrow> pristine st')"
proof (cases cmd)
  case (ADDTEAM n)
  with e addTeam_allTeams[OF cacheInvariant_fresh f, of n] addTeam_pristine[OF p, of n]
  show ?thesis by auto
next
  case (START d pc)
  with e have st': "st' = fst (startCompetition d pc st)" by auto
  with ns have "started st'" by (simp add: startCompetition_def)
  with start_pristine_fresh[OF p f, of d pc] st' show ?thesis by simp
next
  case (SUBMIT pn n stat tm)
  with nsub show ?thesis by simp
next
  case FLUSH
  with e have "st' = flushScoreboard st" by (simp add: flush_def)
  with flushScoreboard_allTeams[OF cacheInvariant_fresh f] flushScoreboard_pristine[OF p]
  show ?thesis by simp
next
  case FREEZE
  with e have "st' = st \<or> st' = st\<lparr>frozen := True\<rparr>" by (auto simp: freeze_def split: if_splits)
  moreover from f p have "allTeams fresh (st\<lparr>frozen := True\<rparr>)" "pristine (st\<lparr>frozen := True\<rparr>)"
    by (simp_all add: allTeams_def pristine_def)
  ultimately show ?thesis using f p by blast
next
  case SCROLL
  with e scroll_allTeams[OF cacheInvariant_fresh f] scroll_pristine[OF _ p] show ?thesis by simp
next
  case (QUERY_RANKING n)
  with e f p show ?thesis by auto
next
  case (QUERY_SUBMISSION n pn s)
  with e f p show ?thesis by auto
next
  case END
  with e f p show ?thesis by auto
qed

lemma submitsAfterStart_mono: "submitsAfterStart s cs \<Longrightarrow> submitsAfterStart True cs"
  by (induction s cs rule: submitsAfterStart.induct) auto

lemma submitsAfterStart_tail:
  "submitsAfterStart s (cmd # cs) \<Longrightarrow> (isSubmit cmd \<longrightarrow> s) \<and> submitsAfterStart (s \<or> isStart cmd) cs"
  by (cases cmd) (auto simp: submitsAfterStart_mono)

lemma run_fresh:
  "run cmds st = Some (Inr (st', out)) \<Longrightarrow> submitsAfterStart (started st) cmds \<Longrightarrow>
   allTeams fresh st \<Longrightarrow> (\<not> started st \<longrightarrow> pristine st) \<Longrightarrow> allTeams fresh st'"
proof (induction cmds arbitrary: st out)
  case Nil
  then show ?case by simp
next
  case (Cons cmd cmds)
  show ?case
  proof (cases "started st")
    case True
    from run_fresh_started[OF Cons.prems(1) True Cons.prems(3)] show ?thesis by simp
  next
    case False
    from Cons.prems(1) obtain s1 o1 where e: "exec cmd st = Some (Inr (s1, o1))"
      by (cases "exec cmd st") (auto split: sum.splits)
    from submitsAfterStart_tail[OF Cons.prems(2)] False
    have nsub: "\<not> isSubmit cmd" and tl: "submitsAfterStart (isStart cmd) cmds" by simp_all
    from Cons.prems(4) False have p: "pristine st" by simp
    from exec_fresh_before_start[OF e False nsub p Cons.prems(3)]
    have f1: "allTeams fresh s1" and p1: "\<not> started s1 \<longrightarrow> pristine s1" by simp_all
    show ?thesis
    proof (cases "cmd = END")
      case True
      with Cons.prems(1) e have "st' = s1" by simp
      with f1 show ?thesis by simp
    next
      case ne: False
      with Cons.prems(1) e obtain o2 where r: "run cmds s1 = Some (Inr (st', o2))"
        by (cases "run cmds s1") (auto split: sum.splits)
      have "submitsAfterStart (started s1) cmds"
      proof (cases "started s1")
        case True
        with tl show ?thesis by (simp add: submitsAfterStart_mono)
      next
        case ns1: False
        have "\<not> isStart cmd"
        proof
          assume "isStart cmd"
          then obtain d pc where "cmd = START d pc" by (cases cmd) auto
          with e False have "started s1" by (auto simp: startCompetition_def)
          with ns1 show False by simp
        qed
        with tl ns1 show ?thesis by simp
      qed
      from Cons.IH[OF r this f1 p1] show ?thesis .
    qed
  qed
qed

lemma reachable_fresh:
  assumes "run cmds initialSystem = Some (Inr (st, out))" and "submitsAfterStart False cmds"
  shows "\<forall>n t. map_of (teams st) n = Some t \<longrightarrow>
           getSolvedCount t = solvedCountOf t \<and> getPenaltyTime t = penaltyOf t"
proof -
  have i: "allTeams fresh initialSystem" "\<not> started initialSystem \<longrightarrow> pristine initialSystem"
    "started initialSystem = False"
    by (simp_all add: allTeams_def pristine_def initialSystem_def)
  from run_fresh[OF assms(1) _ i(1) i(2)] assms(2) i(3) have "allTeams fresh st" by simp
  then show ?thesis by (auto simp: allTeams_def dest: fresh_read)
qed

section \<open>What a run keeps: the states of the resolution loop\<close>

text \<open>
  The properties of one iteration of the resolution loop are stated for a problem that
  is not solved yet and for a scoreboard whose names are registered and distinct. This
  section shows that the loop only ever meets such states: whenever a run of commands
  from the initial state reaches \<^verbatim>\<open>SCROLL\<close>, every iteration of its loop finds a target
  that is unsolved, with a positive frozen count, in a well-formed scoreboard.
\<close>

lemma visits_invariant:
  assumes v: "visits st s" and i: "I st"
    and step: "\<And>s n c s' o'. I s \<Longrightarrow> findTarget s = Inr (Some (n, c)) \<Longrightarrow>
                 scrollStep s n c = Inr (s', o') \<Longrightarrow> I s'"
  shows "I s"
  using v i
proof (induction rule: visits.induct)
  case (visits_first st)
  then show ?case .
next
  case (visits_step st s n c s' out)
  from step[OF visits_step.IH[OF visits_step.prems] visits_step.hyps(2) visits_step.hyps(3)]
  show ?case .
qed

lemma submit_effect_full:
  assumes "submit pn n stat tm st = Inr st'"
  shows "\<exists>team. map_of (teams st) n = Some team \<and>
     (\<forall>m. problemsOf (teams st') m =
        (if m = n then Some ((problems team)(firstChar pn :=
                         recorded (frozen st) pn stat tm (problems team (firstChar pn))))
         else problemsOf (teams st) m)) \<and>
     (\<exists>ts'. st' = st\<lparr>teams := ts'\<rparr>)"
proof -
  from assms obtain team where t: "map_of (teams st) n = Some team"
    by (cases "map_of (teams st) n") (auto simp: submit_def)
  let ?c = "firstChar pn"
  let ?ps = "problems team ?c"
  let ?g = "(problems team)(?c := recorded (frozen st) pn stat tm ?ps)"
  let ?u = "team\<lparr>problems := ?g\<rparr>"
  have "st' = st\<lparr>teams := updateTeam n ?u (teams st)\<rparr> \<or>
        st' = st\<lparr>teams := updateTeam n (invalidateCache ?u) (teams st)\<rparr>"
  proof (cases "solved ?ps")
    case True
    with assms t show ?thesis by (simp add: submit_def Let_def recorded_def)
  next
    case False
    show ?thesis
    proof (cases "frozen st")
      case True
      with False assms t show ?thesis by (simp add: submit_def Let_def recorded_def)
    next
      case nf: False
      show ?thesis
      proof (cases "stat = ''Accepted''")
        case True
        with nf False assms t show ?thesis by (simp add: submit_def Let_def recorded_def)
      next
        case na: False
        with nf False assms t show ?thesis by (simp add: submit_def Let_def recorded_def)
      qed
    qed
  qed
  then have "\<exists>team'. st' = st\<lparr>teams := updateTeam n team' (teams st)\<rparr> \<and> problems team' = ?g"
  proof
    assume "st' = st\<lparr>teams := updateTeam n ?u (teams st)\<rparr>"
    moreover have "problems ?u = ?g" by simp
    ultimately show ?thesis by blast
  next
    assume "st' = st\<lparr>teams := updateTeam n (invalidateCache ?u) (teams st)\<rparr>"
    moreover have "problems (invalidateCache ?u) = ?g" by simp
    ultimately show ?thesis by blast
  qed
  then obtain team' where st': "st' = st\<lparr>teams := updateTeam n team' (teams st)\<rparr>"
    and pt: "problems team' = ?g" by blast
  have 1: "\<forall>m. problemsOf (teams st') m = (if m = n then Some ?g else problemsOf (teams st) m)"
    using t pt by (simp add: st' problemsOf_updateTeam)
  have 2: "\<exists>ts'. st' = st\<lparr>teams := ts'\<rparr>" using st' by blast
  show ?thesis by (intro exI[of _ team] conjI) (rule t 1 2)+
qed

lemma frozenUnsolved_problemsOf:
  "frozenUnsolved st =
     (\<forall>n f c. problemsOf (teams st) n = Some f \<and> c \<in> set (contestProblems (problemCount st)) \<and>
        c \<le> CHR ''Z'' \<and> frozenSubmissions (f c) > 0 \<longrightarrow> \<not> solved (f c) \<and> frozen st)"
  unfolding frozenUnsolved_def problemsOf_def by auto

lemma frozenUnsolved_same:
  assumes "frozenUnsolved st" "\<And>m. problemsOf (teams st') m = problemsOf (teams st) m"
    "problemCount st' = problemCount st" "frozen st \<longrightarrow> frozen st'"
  shows "frozenUnsolved st'"
  using assms unfolding frozenUnsolved_problemsOf by auto

lemma recorded_frozenUnsolved:
  assumes "frozenSubmissions ps > 0 \<longrightarrow> \<not> solved ps \<and> fr"
    and "frozenSubmissions (recorded fr pn stat tm ps) > 0"
  shows "\<not> solved (recorded fr pn stat tm ps) \<and> fr"
  using assms by (auto simp: recorded_def Let_def split: if_splits)

lemma problemsOf_other:
  assumes "problemsOf ts' m = (if m = n then Some (g(c := v)) else problemsOf ts m)"
    and "problemsOf ts n = Some g" and "problemsOf ts' m = Some f" and "\<not> (m = n \<and> c' = c)"
  shows "\<exists>f0. problemsOf ts m = Some f0 \<and> f0 c' = f c'"
proof (cases "m = n")
  case True
  with assms have "f = g(c := v)" "c' \<noteq> c" by auto
  with True assms(2) show ?thesis by simp
next
  case False
  with assms have "problemsOf ts m = Some f" by simp
  then show ?thesis by blast
qed

lemma submit_frozenUnsolved:
  assumes s: "submit pn n stat tm st = Inr st'" and k: "frozenUnsolved st"
  shows "frozenUnsolved st'"
proof -
  from submit_effect_full[OF s] obtain team ts' where t: "map_of (teams st) n = Some team"
    and p: "\<forall>m. problemsOf (teams st') m =
        (if m = n then Some ((problems team)(firstChar pn :=
                         recorded (frozen st) pn stat tm (problems team (firstChar pn))))
         else problemsOf (teams st) m)"
    and st': "st' = st\<lparr>teams := ts'\<rparr>" by blast
  from st' have pc: "problemCount st' = problemCount st" and fr: "frozen st' = frozen st" by simp_all
  show ?thesis unfolding frozenUnsolved_problemsOf pc fr
  proof (intro allI impI)
    fix m f c
    assume h: "problemsOf (teams st') m = Some f \<and> c \<in> set (contestProblems (problemCount st)) \<and>
        c \<le> CHR ''Z'' \<and> frozenSubmissions (f c) > 0"
    show "\<not> solved (f c) \<and> frozen st"
    proof (cases "m = n \<and> c = firstChar pn")
      case True
      with h p have f: "f c = recorded (frozen st) pn stat tm (problems team c)" by auto
      from k t h True have "frozenSubmissions (problems team c) > 0 \<longrightarrow>
          \<not> solved (problems team c) \<and> frozen st"
        unfolding frozenUnsolved_def by blast
      moreover from h f have "frozenSubmissions (recorded (frozen st) pn stat tm (problems team c)) > 0"
        by simp
      ultimately have "\<not> solved (recorded (frozen st) pn stat tm (problems team c)) \<and> frozen st"
        by (rule recorded_frozenUnsolved)
      with f show ?thesis by auto
    next
      case False
      from p have "problemsOf (teams st') m =
          (if m = n then Some ((problems team)(firstChar pn :=
                         recorded (frozen st) pn stat tm (problems team (firstChar pn))))
           else problemsOf (teams st) m)" by blast
      moreover from t have "problemsOf (teams st) n = Some (problems team)"
        by (simp add: problemsOf_def)
      moreover from h have "problemsOf (teams st') m = Some f" by simp
      ultimately have "\<exists>f0. problemsOf (teams st) m = Some f0 \<and> f0 c = f c"
        using False by (rule problemsOf_other)
      with k h show ?thesis unfolding frozenUnsolved_problemsOf by metis
    qed
  qed
qed

lemma scrollStep_frozenUnsolved:
  assumes s: "scrollStep st n c = Inr (st', out)" and k: "frozenUnsolved st"
  shows "frozenUnsolved st'"
proof -
  from scrollStep_effect[OF s] obtain team where t: "map_of (teams st) n = Some team"
    and e: "stepEffect st n c team st'" by blast
  from e have pc: "problemCount st' = problemCount st" and fr: "frozen st' = frozen st"
    and p: "\<forall>m. problemsOf (teams st') m =
            (if m = n then Some ((problems team)(c := fst (resolveFrozen (problems team c))))
             else problemsOf (teams st) m)" by (simp_all add: stepEffect_def)
  show ?thesis unfolding frozenUnsolved_problemsOf pc fr
  proof (intro allI impI)
    fix m f c'
    assume h: "problemsOf (teams st') m = Some f \<and> c' \<in> set (contestProblems (problemCount st)) \<and>
        c' \<le> CHR ''Z'' \<and> frozenSubmissions (f c') > 0"
    show "\<not> solved (f c') \<and> frozen st"
    proof (cases "m = n \<and> c' = c")
      case True
      with h p have "f c' = fst (resolveFrozen (problems team c))" by auto
      with h resolveFrozen_clears[of "problems team c"] show ?thesis by simp
    next
      case False
      from p have "problemsOf (teams st') m =
            (if m = n then Some ((problems team)(c := fst (resolveFrozen (problems team c))))
             else problemsOf (teams st) m)" by blast
      moreover from t have "problemsOf (teams st) n = Some (problems team)"
        by (simp add: problemsOf_def)
      moreover from h have "problemsOf (teams st') m = Some f" by simp
      ultimately have "\<exists>f0. problemsOf (teams st) m = Some f0 \<and> f0 c' = f c'"
        using False by (rule problemsOf_other)
      with k h show ?thesis unfolding frozenUnsolved_problemsOf by metis
    qed
  qed
qed

lemma visits_front:
  "visits s1 s \<Longrightarrow> findTarget st = Inr (Some (n, c)) \<Longrightarrow>
   scrollStep st n c = Inr (s1, out) \<Longrightarrow> visits st s"
proof (induction rule: visits.induct)
  case (visits_first s1)
  from visits.visits_step[OF visits.visits_first visits_first(1) visits_first(2)] show ?case .
next
  case (visits_step s1 s n' c' s' out')
  from visits_step.IH[OF visits_step.prems] have "visits st s" .
  from visits.visits_step[OF this visits_step.hyps(2) visits_step.hyps(3)] show ?case .
qed

lemma within_exit:
  "scrollLoopWithin k st out = Some (Inr (st', out')) \<Longrightarrow>
   findTarget st' = Inr None \<and> visits st st'"
proof (induction k arbitrary: st out)
  case 0
  then show ?case
    by (auto simp: scrollLoopWithin.simps visits.visits_first
             split: sum.splits option.splits prod.splits)
next
  case (Suc k)
  show ?case
  proof (cases "findTarget st")
    case (Inl e)
    with Suc.prems show ?thesis by (simp add: scrollLoopWithin.simps)
  next
    case (Inr r)
    show ?thesis
    proof (cases r)
      case None
      with Inr Suc.prems show ?thesis by (simp add: scrollLoopWithin.simps visits.visits_first)
    next
      case (Some p)
      obtain n c where p: "p = (n, c)" by (cases p)
      with Inr Some have f: "findTarget st = Inr (Some (n, c))" by simp
      show ?thesis
      proof (cases "scrollStep st n c")
        case (Inl e)
        with f Suc.prems show ?thesis by (simp add: scrollLoopWithin.simps)
      next
        case (Inr q)
        obtain s' o' where q: "q = (s', o')" by (cases q)
        with Inr have s: "scrollStep st n c = Inr (s', o')" by simp
        with f Suc.prems have w: "scrollLoopWithin k s' (out @ o') = Some (Inr (st', out'))"
          by (simp add: scrollLoopWithin.simps)
        from Suc.IH[OF w] have "findTarget st' = Inr None" "visits s' st'" by simp_all
        with visits_front[OF _ f s] show ?thesis by simp
      qed
    qed
  qed
qed

lemma scrollLoop_exit:
  assumes l: "scrollLoop st out = Some (Inr (st', out'))"
  shows "findTarget st' = Inr None \<and> visits st st'"
proof -
  from within_terminates[of st "frozenPairs st" out] obtain r where
    r: "scrollLoopWithin (frozenPairs st) st out = Some r" by auto
  from within_implies_loop[OF r] l have "r = Inr (st', out')" by simp
  with r within_exit show ?thesis by blast
qed

lemma exit_no_frozen:
  assumes f: "findTarget st = Inr None" and b: "boardConsistent st"
    and t: "map_of (teams st) n = Some t" and c: "c \<in> set (contestProblems (problemCount st))"
    and z: "c \<le> CHR ''Z''"
  shows "\<not> frozenSubmissions (problems t c) > 0"
proof
  assume fr: "frozenSubmissions (problems t c) > 0"
  from t have "n \<in> fst ` set (teams st)" by (metis map_of_eq_None_iff option.distinct(1))
  with b have "n \<in> set (rev (ranking st))" by (simp add: boardConsistent_def)
  moreover from f have "findFrozen (teams st) (problemCount st) (rev (ranking st)) = Inr None"
    by (simp add: findTarget_def)
  ultimately obtain t' where "map_of (teams st) n = Some t'"
    "\<not> smallestFrozen (problemCount st) t' \<le> CHR ''Z''"
    using findFrozen_None by blast
  with t have nz: "\<not> smallestFrozen (problemCount st) t \<le> CHR ''Z''" by simp
  from c fr have "hasFrozen (problemCount st) t c" by (simp add: hasFrozen_def)
  from smallestFrozen_lower[OF this] z have "smallestFrozen (problemCount st) t \<le> CHR ''Z''"
    by (rule order_trans)
  with nz show False by simp
qed

lemma refreshed_frozenUnsolved:
  assumes k: "frozenUnsolved st" and r: "refreshedFrom (teams st) ts'"
  shows "frozenUnsolved (st\<lparr>teams := ts'\<rparr>)"
  by (rule frozenUnsolved_same[OF k]) (simp_all add: refreshedFrom_problemsOf[OF r])

lemma printTeams_frozenUnsolved:
  "printTeams ns st = Inr (rows, st') \<Longrightarrow> frozenUnsolved st \<Longrightarrow> frozenUnsolved st'"
  using printTeams_effect refreshed_frozenUnsolved by blast

lemma flushScoreboard_frozenUnsolved: "frozenUnsolved st \<Longrightarrow> frozenUnsolved (flushScoreboard st)"
proof -
  assume k: "frozenUnsolved st"
  from flushScoreboard_effect[of st] obtain ts' where r: "refreshedFrom (teams st) ts'"
    and f: "flushScoreboard st = st\<lparr>teams := ts', ranking := map fst (sortBy teamBefore (teams st))\<rparr>"
    by blast
  from refreshed_frozenUnsolved[OF k r] have "frozenUnsolved (st\<lparr>teams := ts'\<rparr>)" .
  then show ?thesis unfolding f by (rule frozenUnsolved_same) simp_all
qed

lemma scrollStep_loopInvariant:
  assumes i: "loopInvariant st s" and s: "scrollStep s n c = Inr (s', out)"
  shows "loopInvariant st s'"
proof -
  from i have w: "wellFormed s" and k: "frozenUnsolved s" and pc: "problemCount s = problemCount st"
    and sd: "started s = started st" by (simp_all add: loopInvariant_def)
  from w have b: "boardConsistent s" and a: "allTeams coherent s" by (simp_all add: wellFormed_def)
  from scrollStep_consistent[OF s b] scrollStep_coherent[OF a s] have "wellFormed s'"
    by (simp add: wellFormed_def)
  moreover from scrollStep_frozenUnsolved[OF s k] have "frozenUnsolved s'" .
  moreover from scrollStep_effect[OF s] have "problemCount s' = problemCount s" "started s' = started s"
    by (auto simp: stepEffect_def)
  ultimately show ?thesis using pc sd by (simp add: loopInvariant_def)
qed

lemma print_loopInvariant:
  assumes i: "loopInvariant st s" and p: "printTeams ns s = Inr (rows, s')"
  shows "loopInvariant st s'"
proof -
  from i have w: "wellFormed s" and k: "frozenUnsolved s" and pc: "problemCount s = problemCount st"
    and sd: "started s = started st" by (simp_all add: loopInvariant_def)
  from w have b: "boardConsistent s" and a: "allTeams coherent s" by (simp_all add: wellFormed_def)
  from printTeams_consistent[OF p b] printTeams_allTeams[OF cacheInvariant_coherent a p]
  have "wellFormed s'" by (simp add: wellFormed_def)
  moreover from printTeams_frozenUnsolved[OF p k] have "frozenUnsolved s'" .
  moreover from printTeams_effect[OF p] obtain ts' where "s' = s\<lparr>teams := ts'\<rparr>" by blast
  ultimately show ?thesis using pc sd by (simp add: loopInvariant_def)
qed

lemma flush_loopInvariant:
  assumes w: "wellFormed st" and k: "frozenUnsolved st"
  shows "loopInvariant st (flushScoreboard st)"
proof -
  from w have b: "boardConsistent st" and a: "allTeams coherent st" by (simp_all add: wellFormed_def)
  from b have "distinct (map fst (teams st))" by (simp add: boardConsistent_def)
  from flushScoreboard_consistent[OF this] flushScoreboard_allTeams[OF cacheInvariant_coherent a]
  have "wellFormed (flushScoreboard st)" by (simp add: wellFormed_def)
  with flushScoreboard_frozenUnsolved[OF k] show ?thesis
    by (simp add: loopInvariant_def flushScoreboard_def)
qed

lemma scroll_frozenUnsolved:
  assumes s: "scroll st = Some (Inr (st', out))" and w: "wellFormed st" and k: "frozenUnsolved st"
  shows "frozenUnsolved st' \<and> problemCount st' = problemCount st \<and> started st' = started st"
proof (cases "frozen st")
  case False
  with s k show ?thesis by (simp add: scroll_def)
next
  case True
  from scroll_frozen_cases[OF True s] obtain rows1 st1 st2 out2 rows2 where
    p1: "printScoreboard (flushScoreboard st) = Inr (rows1, st1)" and
    l: "scrollLoop st1 (Info ''Scroll scoreboard.'' # rows1) = Some (Inr (st2, out2))" and
    p2: "printScoreboard (st2\<lparr>frozen := False\<rparr>) = Inr (rows2, st')" by blast
  note i0 = flush_loopInvariant[OF w k]
  note i1 = print_loopInvariant[OF i0 p1[unfolded printScoreboard_def]]
  have i2: "loopInvariant st st2"
    by (rule scrollLoop_rule[where I = "loopInvariant st", OF l i1])
       (rule scrollStep_loopInvariant)
  from scrollLoop_exit[OF l] have ex: "findTarget st2 = Inr None" by simp
  from i2 have b2: "boardConsistent st2" by (simp add: loopInvariant_def wellFormed_def)
  have k3: "frozenUnsolved (st2\<lparr>frozen := False\<rparr>)"
    unfolding frozenUnsolved_def
  proof (intro allI impI)
    fix n t c
    assume h: "map_of (teams (st2\<lparr>frozen := False\<rparr>)) n = Some t \<and>
       c \<in> set (contestProblems (problemCount (st2\<lparr>frozen := False\<rparr>))) \<and> c \<le> CHR ''Z'' \<and>
       0 < frozenSubmissions (problems t c)"
    then have "map_of (teams st2) n = Some t" "c \<in> set (contestProblems (problemCount st2))"
      "c \<le> CHR ''Z''" by simp_all
    from exit_no_frozen[OF ex b2 this] h
    show "\<not> solved (problems t c) \<and> frozen (st2\<lparr>frozen := False\<rparr>)" by simp
  qed
  from i2 have "loopInvariant st (st2\<lparr>frozen := False\<rparr>)"
    using k3 by (simp add: loopInvariant_def wellFormed_def boardConsistent_def allTeams_def)
  from print_loopInvariant[OF this p2[unfolded printScoreboard_def]] show ?thesis
    by (simp add: loopInvariant_def)
qed

lemma reset_problems:
  "c \<in> set cs \<Longrightarrow> foldl (\<lambda>f prob. f(prob := v)) g cs c = v"
proof (induction cs arbitrary: g rule: rev_induct)
  case Nil
  then show ?case by simp
next
  case (snoc x xs)
  then show ?case by (cases "c = x") simp_all
qed

lemma startCompetition_teams:
  assumes "map_of (map (\<lambda>(k, t). (k, t\<lparr>problems := h (problems t)\<rparr>)) ts) n = Some t'"
  shows "\<exists>t. map_of ts n = Some t \<and> problems t' = h (problems t)"
  using assms by (induction ts) (auto split: if_splits)

lemma startCompetition_contestState:
  assumes k: "contestState st"
  shows "contestState (fst (startCompetition duration pc st))"
proof (cases "started st")
  case True
  with k show ?thesis by (simp add: startCompetition_def)
next
  case False
  let ?h = "\<lambda>g. foldl (\<lambda>f prob. f(prob := newProblemStatus)) g (contestProblems pc)"
  let ?ts = "map (\<lambda>(k, t). (k, t\<lparr>problems := ?h (problems t)\<rparr>)) (teams st)"
  let ?st = "fst (startCompetition duration pc st)"
  from False have ts: "teams ?st = ?ts" and pc: "problemCount ?st = pc" and sd: "started ?st"
    by (simp_all add: startCompetition_def)
  from k have "wellFormed st" by (simp add: contestState_def)
  from exec_wellFormed[of "START duration pc" st ?st "snd (startCompetition duration pc st)", OF _ this]
  have w: "wellFormed ?st" by simp
  have "frozenUnsolved ?st"
    unfolding frozenUnsolved_def
  proof (intro allI impI)
    fix n t c
    assume h: "map_of (teams ?st) n = Some t \<and> c \<in> set (contestProblems (problemCount ?st)) \<and>
               c \<le> CHR ''Z'' \<and> 0 < frozenSubmissions (problems t c)"
    then have m: "map_of ?ts n = Some t" and c: "c \<in> set (contestProblems pc)"
      and f: "0 < frozenSubmissions (problems t c)" by (simp_all add: ts pc)
    from startCompetition_teams[of ?h, OF m] obtain t0 where "map_of (teams st) n = Some t0"
      "problems t = ?h (problems t0)" by (elim exE conjE) (rule that)
    with reset_problems[OF c] have "problems t c = newProblemStatus" by simp
    with f show "\<not> solved (problems t c) \<and> frozen ?st" by (simp add: newProblemStatus_def)
  qed
  with w sd show ?thesis by (simp add: contestState_def)
qed

lemma addTeam_contestState:
  assumes k: "contestState st"
  shows "contestState (fst (addTeam n st))"
proof (cases "started st \<or> map_of (teams st) n \<noteq> None")
  case True
  with k show ?thesis by (auto simp: addTeam_def)
next
  case False
  let ?st = "fst (addTeam n st)"
  from k False have z: "problemCount st = 0" by (simp add: contestState_def)
  from False have pc: "problemCount ?st = problemCount st" and sd: "started ?st = started st"
    by (simp_all add: addTeam_def)
  from k have "wellFormed st" by (simp add: contestState_def)
  from exec_wellFormed[of "ADDTEAM n" st ?st "snd (addTeam n st)", OF _ this]
  have w: "wellFormed ?st" by simp
  have "frozenUnsolved ?st" by (simp add: frozenUnsolved_def pc z contestProblems_def)
  with w pc sd z show ?thesis by (simp add: contestState_def)
qed

lemma exec_contestState:
  assumes e: "exec cmd st = Some (Inr (st', out))" and k: "contestState st"
  shows "contestState st'"
proof -
  from k have w: "wellFormed st" and u: "frozenUnsolved st"
    and z: "\<not> started st \<longrightarrow> problemCount st = 0" by (simp_all add: contestState_def)
  note w' = exec_wellFormed[OF e w]
  show ?thesis
  proof (cases cmd)
    case (ADDTEAM n)
    with e have "st' = fst (addTeam n st)" by auto
    with addTeam_contestState[OF k] show ?thesis by simp
  next
    case (START d pc)
    with e have "st' = fst (startCompetition d pc st)" by auto
    with startCompetition_contestState[OF k] show ?thesis by simp
  next
    case (SUBMIT pn n stat tm)
    with e have s: "submit pn n stat tm st = Inr st'" by (auto split: sum.splits)
    from submit_effect_full[OF s] obtain ts' where "st' = st\<lparr>teams := ts'\<rparr>" by blast
    with submit_frozenUnsolved[OF s u] w' z show ?thesis by (simp add: contestState_def)
  next
    case FLUSH
    with e have "st' = flushScoreboard st" by (auto simp: flush_def)
    with flushScoreboard_frozenUnsolved[OF u] w' z show ?thesis
      by (simp add: contestState_def flushScoreboard_def)
  next
    case FREEZE
    with e have "st' = st \<or> st' = st\<lparr>frozen := True\<rparr>" by (auto simp: freeze_def split: if_splits)
    moreover from u have "frozenUnsolved (st\<lparr>frozen := True\<rparr>)"
      by (rule frozenUnsolved_same) simp_all
    ultimately show ?thesis using w' k z by (auto simp: contestState_def)
  next
    case SCROLL
    with e have "scroll st = Some (Inr (st', out))" by simp
    from scroll_frozenUnsolved[OF this w u] w' z show ?thesis by (simp add: contestState_def)
  next
    case (QUERY_RANKING n)
    with e k show ?thesis by auto
  next
    case (QUERY_SUBMISSION n pn stat)
    with e k show ?thesis by auto
  next
    case END
    with e k show ?thesis by auto
  qed
qed

lemma run_contestState:
  "run cmds st = Some (Inr (st', out)) \<Longrightarrow> contestState st \<Longrightarrow> contestState st'"
proof (induction cmds arbitrary: st out)
  case Nil
  then show ?case by simp
next
  case (Cons cmd cmds)
  from Cons.prems(1) obtain s1 o1 where e: "exec cmd st = Some (Inr (s1, o1))"
    by (cases "exec cmd st") (auto split: sum.splits)
  from exec_contestState[OF e Cons.prems(2)] have w1: "contestState s1" .
  show ?case
  proof (cases "cmd = END")
    case True
    with Cons.prems(1) e have "st' = s1" by simp
    with w1 show ?thesis by simp
  next
    case False
    with Cons.prems(1) e obtain o2 where r: "run cmds s1 = Some (Inr (st', o2))"
      by (cases "run cmds s1") (auto split: sum.splits)
    from Cons.IH[OF r w1] show ?thesis .
  qed
qed

lemma initial_contestState: "contestState initialSystem"
  by (simp add: contestState_def wellFormed_def boardConsistent_def allTeams_def
                frozenUnsolved_def initialSystem_def)

lemma resolution_states:
  assumes r: "run cmds initialSystem = Some (Inr (st0, out0))"
    and p: "printScoreboard (flushScoreboard st0) = Inr (rows, st1)"
    and v: "visits st1 s"
    and f: "findTarget s = Inr (Some (n, c))"
  shows "\<exists>team old. map_of (teams s) n = Some team \<and> \<not> solved (problems team c) \<and>
           0 < frozenSubmissions (problems team c) \<and>
           indexOf (ranking s) n = Some old \<and> distinct (ranking s) \<and>
           set (ranking s) = fst ` set (teams s) \<and> allTeams coherent s"
proof -
  from run_contestState[OF r initial_contestState] have w: "wellFormed st0" and u: "frozenUnsolved st0"
    by (simp_all add: contestState_def)
  note i0 = flush_loopInvariant[OF w u]
  note i1 = print_loopInvariant[OF i0 p[unfolded printScoreboard_def]]
  have i: "loopInvariant st0 s"
    by (rule visits_invariant[where I = "loopInvariant st0", OF v i1])
       (rule scrollStep_loopInvariant)
  then have ws: "wellFormed s" and us: "frozenUnsolved s" by (simp_all add: loopInvariant_def)
  from f have "findFrozen (teams s) (problemCount s) (rev (ranking s)) = Inr (Some (n, c))"
    by (simp add: findTarget_def)
  from findFrozen_Some[OF this] obtain pre post team where
    d: "rev (ranking s) = pre @ n # post" and t: "map_of (teams s) n = Some team"
    and c: "c = smallestFrozen (problemCount s) team" and z: "c \<le> CHR ''Z''"
    by (elim exE conjE) (rule that)
  from smallestFrozen_mem[of "problemCount s" team] c z
  have h: "c \<in> set (contestProblems (problemCount s))" "0 < frozenSubmissions (problems team c)"
    by (simp_all add: hasFrozen_def)
  with us t z have ns: "\<not> solved (problems team c)" unfolding frozenUnsolved_def by blast
  from d have "n \<in> set (rev (ranking s))" by simp
  then have "n \<in> set (ranking s)" by simp
  then have "indexOf (ranking s) n \<noteq> None" by (simp add: indexOf_None)
  then obtain old where o: "indexOf (ranking s) n = Some old" by blast
  from ws have b: "distinct (ranking s)" "set (ranking s) = fst ` set (teams s)" "allTeams coherent s"
    by (simp_all add: wellFormed_def boardConsistent_def)
  show ?thesis
    by (intro exI[of _ team] exI[of _ old] conjI) (rule t ns h(2) o b)+
qed

section \<open>What a run keeps: plain problem keys\<close>

text \<open>
  \<^verbatim>\<open>submit\<close> files a submission under the first character of its problem name, and
  nothing else adds a submission. After a run from the initial state whose problem
  names all start with a character below 0x80, every submission of every team is
  therefore under such a key.
\<close>

lemma plain_problemsOf:
  "allTeams plainSubmissions st =
     (\<forall>m f c. problemsOf (teams st) m = Some f \<and> (128::nat) \<le> of_char c \<longrightarrow> submissions (f c) = [])"
  unfolding allTeams_def plainSubmissions_def problemsOf_def by auto

lemma plain_same:
  assumes "allTeams plainSubmissions st" "\<And>m. problemsOf (teams st') m = problemsOf (teams st) m"
  shows "allTeams plainSubmissions st'"
  using assms unfolding plain_problemsOf by auto

lemma plain_refreshed:
  assumes k: "allTeams plainSubmissions st" and r: "refreshedFrom (teams st) ts'"
  shows "allTeams plainSubmissions (st\<lparr>teams := ts'\<rparr>)"
  by (rule plain_same[OF k]) (simp add: refreshedFrom_problemsOf[OF r])

lemma plain_printTeams:
  "printTeams ns st = Inr (rows, st') \<Longrightarrow> allTeams plainSubmissions st \<Longrightarrow>
   allTeams plainSubmissions st'"
  using printTeams_effect plain_refreshed by blast

lemma plain_flushScoreboard:
  assumes k: "allTeams plainSubmissions st"
  shows "allTeams plainSubmissions (flushScoreboard st)"
proof -
  from flushScoreboard_effect[of st] obtain ts' where r: "refreshedFrom (teams st) ts'"
    and f: "flushScoreboard st = st\<lparr>teams := ts', ranking := map fst (sortBy teamBefore (teams st))\<rparr>"
    by blast
  from plain_refreshed[OF k r] have "allTeams plainSubmissions (st\<lparr>teams := ts'\<rparr>)" .
  then show ?thesis unfolding f by (rule plain_same) simp
qed

lemma plain_scrollStep:
  assumes s: "scrollStep st n c = Inr (st', out)" and k: "allTeams plainSubmissions st"
  shows "allTeams plainSubmissions st'"
proof -
  from scrollStep_effect[OF s] obtain team where t: "map_of (teams st) n = Some team"
    and e: "stepEffect st n c team st'" by blast
  from e have p: "\<forall>m. problemsOf (teams st') m =
            (if m = n then Some ((problems team)(c := fst (resolveFrozen (problems team c))))
             else problemsOf (teams st) m)" by (simp add: stepEffect_def)
  from t have pt: "problemsOf (teams st) n = Some (problems team)" by (simp add: problemsOf_def)
  show ?thesis unfolding plain_problemsOf
  proof (intro allI impI)
    fix m f c'
    assume h: "problemsOf (teams st') m = Some f \<and> (128::nat) \<le> of_char c'"
    show "submissions (f c') = []"
    proof (cases "m = n")
      case True
      with p h have f: "f = (problems team)(c := fst (resolveFrozen (problems team c)))" by simp
      from k pt h have "submissions (problems team c') = []" unfolding plain_problemsOf by blast
      with f resolveFrozen_clears[of "problems team c"] show ?thesis by (cases "c' = c") simp_all
    next
      case False
      with p h have "problemsOf (teams st) m = Some f" by simp
      with k h show ?thesis unfolding plain_problemsOf by blast
    qed
  qed
qed

lemma plain_submit:
  assumes s: "submit pn n stat tm st = Inr st'" and k: "allTeams plainSubmissions st"
    and pl: "of_char (firstChar pn) < (128::nat)"
  shows "allTeams plainSubmissions st'"
proof -
  from submit_effect_full[OF s] obtain team where t: "map_of (teams st) n = Some team"
    and p: "\<forall>m. problemsOf (teams st') m =
        (if m = n then Some ((problems team)(firstChar pn :=
                         recorded (frozen st) pn stat tm (problems team (firstChar pn))))
         else problemsOf (teams st) m)"
    by (elim exE conjE) (rule that)
  from t have pt: "problemsOf (teams st) n = Some (problems team)" by (simp add: problemsOf_def)
  show ?thesis unfolding plain_problemsOf
  proof (intro allI impI)
    fix m f c'
    assume h: "problemsOf (teams st') m = Some f \<and> (128::nat) \<le> of_char c'"
    with pl have ne: "c' \<noteq> firstChar pn" by auto
    show "submissions (f c') = []"
    proof (cases "m = n")
      case True
      with p h have "f = (problems team)(firstChar pn :=
                         recorded (frozen st) pn stat tm (problems team (firstChar pn)))" by simp
      with ne have "f c' = problems team c'" by simp
      moreover from k pt h have "submissions (problems team c') = []"
        unfolding plain_problemsOf by blast
      ultimately show ?thesis by simp
    next
      case False
      with p h have "problemsOf (teams st) m = Some f" by simp
      with k h show ?thesis unfolding plain_problemsOf by blast
    qed
  qed
qed

lemma reset_submissions:
  "submissions (g c) = [] \<Longrightarrow>
   submissions (foldl (\<lambda>f prob. f(prob := newProblemStatus)) g cs c) = []"
  by (induction cs arbitrary: g) (simp_all add: newProblemStatus_def)

lemma plain_startCompetition:
  assumes k: "allTeams plainSubmissions st"
  shows "allTeams plainSubmissions (fst (startCompetition duration pc st))"
proof (cases "started st")
  case True
  with k show ?thesis by (simp add: startCompetition_def)
next
  case False
  let ?h = "\<lambda>g. foldl (\<lambda>f prob. f(prob := newProblemStatus)) g (contestProblems pc)"
  let ?ts = "map (\<lambda>(k, t). (k, t\<lparr>problems := ?h (problems t)\<rparr>)) (teams st)"
  from False have ts: "teams (fst (startCompetition duration pc st)) = ?ts"
    by (simp add: startCompetition_def)
  show ?thesis unfolding allTeams_def ts
  proof (intro allI impI)
    fix n t assume "map_of ?ts n = Some t"
    from startCompetition_teams[of ?h, OF this] obtain t0 where t0: "map_of (teams st) n = Some t0"
      "problems t = ?h (problems t0)" by (elim exE conjE) (rule that)
    from k t0(1) have "plainSubmissions t0" by (simp add: allTeams_def)
    with t0(2) show "plainSubmissions t" by (simp add: plainSubmissions_def reset_submissions)
  qed
qed

lemma plain_addTeam:
  assumes k: "allTeams plainSubmissions st"
  shows "allTeams plainSubmissions (fst (addTeam n st))"
proof (cases "started st \<or> map_of (teams st) n \<noteq> None")
  case True
  with k show ?thesis by (auto simp: addTeam_def)
next
  case False
  then have none: "map_of (teams st) n = None" by simp
  from False have st': "fst (addTeam n st) = st\<lparr>teams := insort_key fst (n, newTeam n) (teams st),
               ranking := sort (ranking st @ [n])\<rparr>" by (simp add: addTeam_def)
  have "plainSubmissions (newTeam n)"
    by (simp add: plainSubmissions_def newTeam_def newProblemStatus_def)
  with k show ?thesis unfolding st' allTeams_def
    by (auto simp: map_of_insort_key[OF none] split: if_splits)
qed

lemma plain_scroll:
  assumes s: "scroll st = Some (Inr (st', out))" and k: "allTeams plainSubmissions st"
  shows "allTeams plainSubmissions st'"
proof (cases "frozen st")
  case False
  with s k show ?thesis by (simp add: scroll_def)
next
  case True
  from scroll_frozen_cases[OF True s] obtain rows1 st1 st2 out2 rows2 where
    p1: "printScoreboard (flushScoreboard st) = Inr (rows1, st1)" and
    l: "scrollLoop st1 (Info ''Scroll scoreboard.'' # rows1) = Some (Inr (st2, out2))" and
    p2: "printScoreboard (st2\<lparr>frozen := False\<rparr>) = Inr (rows2, st')" by blast
  note k1 = plain_printTeams[OF p1[unfolded printScoreboard_def] plain_flushScoreboard[OF k]]
  have k2: "allTeams plainSubmissions st2"
    by (rule scrollLoop_rule[where I = "allTeams plainSubmissions", OF l k1])
       (rule plain_scrollStep)
  then have "allTeams plainSubmissions (st2\<lparr>frozen := False\<rparr>)" by (simp add: allTeams_def)
  from plain_printTeams[OF p2[unfolded printScoreboard_def] this] show ?thesis .
qed

lemma plain_exec:
  assumes e: "exec cmd st = Some (Inr (st', out))" and k: "allTeams plainSubmissions st"
    and pl: "plainCommand cmd"
  shows "allTeams plainSubmissions st'"
proof (cases cmd)
  case (ADDTEAM n)
  with e have "st' = fst (addTeam n st)" by auto
  with plain_addTeam[OF k] show ?thesis by simp
next
  case (START d pc)
  with e have "st' = fst (startCompetition d pc st)" by auto
  with plain_startCompetition[OF k] show ?thesis by simp
next
  case (SUBMIT pn n stat tm)
  with e have s: "submit pn n stat tm st = Inr st'" by (auto split: sum.splits)
  from pl SUBMIT have "of_char (firstChar pn) < (128::nat)" by simp
  from plain_submit[OF s k this] show ?thesis .
next
  case FLUSH
  with e have "st' = flushScoreboard st" by (auto simp: flush_def)
  with plain_flushScoreboard[OF k] show ?thesis by simp
next
  case FREEZE
  with e have "st' = st \<or> st' = st\<lparr>frozen := True\<rparr>" by (auto simp: freeze_def split: if_splits)
  with k show ?thesis by (auto simp: allTeams_def)
next
  case SCROLL
  with e have "scroll st = Some (Inr (st', out))" by simp
  from plain_scroll[OF this k] show ?thesis .
next
  case (QUERY_RANKING n)
  with e k show ?thesis by auto
next
  case (QUERY_SUBMISSION n pn stat)
  with e k show ?thesis by auto
next
  case END
  with e k show ?thesis by auto
qed

lemma plain_run:
  "run cmds st = Some (Inr (st', out)) \<Longrightarrow> allTeams plainSubmissions st \<Longrightarrow>
   \<forall>c\<in>set cmds. plainCommand c \<Longrightarrow> allTeams plainSubmissions st'"
proof (induction cmds arbitrary: st out)
  case Nil
  then show ?case by simp
next
  case (Cons cmd cmds)
  from Cons.prems(1) obtain s1 o1 where e: "exec cmd st = Some (Inr (s1, o1))"
    by (cases "exec cmd st") (auto split: sum.splits)
  from Cons.prems(3) have pc: "plainCommand cmd" and pcs: "\<forall>c\<in>set cmds. plainCommand c" by simp_all
  from plain_exec[OF e Cons.prems(2) pc] have w1: "allTeams plainSubmissions s1" .
  show ?case
  proof (cases "cmd = END")
    case True
    with Cons.prems(1) e have "st' = s1" by simp
    with w1 show ?thesis by simp
  next
    case False
    with Cons.prems(1) e obtain o2 where r: "run cmds s1 = Some (Inr (st', o2))"
      by (cases "run cmds s1") (auto split: sum.splits)
    from Cons.IH[OF r w1 pcs] show ?thesis .
  qed
qed

lemma reachable_plainSubmissions:
  assumes "run cmds initialSystem = Some (Inr (st, out))" and "\<forall>c\<in>set cmds. plainCommand c"
    and "map_of (teams st) n = Some team"
  shows "plainSubmissions team"
proof -
  have "allTeams plainSubmissions initialSystem" by (simp add: allTeams_def initialSystem_def)
  from plain_run[OF assms(1) this assms(2)] assms(3) show ?thesis by (simp add: allTeams_def)
qed

end
